theory Spec2Isabelle
  imports Complex_Main "HOL-Library.Word" "HOL-Library.Monad_Syntax"
begin

unbundle bit_operations_syntax

section \<open>Common/ReadsProcessor.cpp: the data model\<close>

text \<open>
  An \<open>unsigned char\<close> is an 8-bit word. The \<open>unsigned\<close> members of the class and the
  \<open>size_t\<close> locals are natural numbers: the constructor only divides, takes remainders
  and adds one to a quotient, and an index into a \<open>std::string\<close> (which is shorter than
  \<open>SIZE_MAX\<close>) cannot be incremented past \<open>SIZE_MAX\<close> before it is read out of range.
  Decrements, on the other hand, do reach \<open>0 - 1\<close> on ordinary inputs (the last
  \<open>revIndex--\<close> of a window at position 0), so they wrap as \<open>size_t\<close> does.
\<close>

type_synonym byte = "8 word"

definition SIZE_MAX :: nat where
  "SIZE_MAX = 2 ^ 64 - 1"

definition size_dec :: "nat \<Rightarrow> nat" where
  "size_dec i = (if i = 0 then SIZE_MAX else i - 1)"

datatype error = AssertionFailed

record ReadsProcessor =
  m_kmerSize :: nat
  m_kmerSizeInBytes :: nat
  m_halfSizeOfKmerInBytes :: nat
  m_hangingBases :: nat
  m_hangingBasesExist :: nat
  m_fw :: "byte list"
  m_rv :: "byte list"

text \<open>
  The constructor. The member initialisers run first, then \<open>assert(m_kmerSize > 3)\<close>,
  then the adjustment for window sizes that are no multiple of 8, then the two
  allocations. \<open>new unsigned char[n]\<close> leaves the contents indeterminate; \<open>prepSeq\<close>
  zeroes both buffers before it reads them, and the model starts them at zero.
\<close>

definition ReadsProcessor_init :: "nat \<Rightarrow> ReadsProcessor" where
  "ReadsProcessor_init windowSize =
     \<lparr>m_kmerSize = windowSize,
      m_kmerSizeInBytes = windowSize div 4,
      m_halfSizeOfKmerInBytes = windowSize div 8,
      m_hangingBases = 0,
      m_hangingBasesExist = 0,
      m_fw = [],
      m_rv = []\<rparr>"

definition ReadsProcessor_adjust :: "nat \<Rightarrow> ReadsProcessor \<Rightarrow> ReadsProcessor" where
  "ReadsProcessor_adjust windowSize rp =
     (if windowSize mod 8 \<noteq> 0 then
        let rp = rp\<lparr>m_halfSizeOfKmerInBytes := m_halfSizeOfKmerInBytes rp + 1\<rparr>;
            rp = rp\<lparr>m_hangingBases := windowSize mod 4\<rparr>
        in if m_hangingBases rp mod 4 \<noteq> 0 then
             rp\<lparr>m_kmerSizeInBytes := m_kmerSizeInBytes rp + 1, m_hangingBasesExist := 1\<rparr>
           else rp
      else rp)"

definition ReadsProcessor_new :: "nat \<Rightarrow> error + ReadsProcessor" where
  "ReadsProcessor_new windowSize =
     (let rp = ReadsProcessor_init windowSize in
      if \<not> m_kmerSize rp > 3 then Inl AssertionFailed
      else
        let rp = ReadsProcessor_adjust windowSize rp in
        Inr (rp\<lparr>m_fw := replicate (m_kmerSizeInBytes rp) 0,
                m_rv := replicate (m_kmerSizeInBytes rp) 0\<rparr>))"

subsection \<open>The lookup tables\<close>

text \<open>
  The eight 256-entry tables, in the order of the source file. Table \<open>fwj\<close> holds the
  2-bit code of a base shifted to sub-position \<open>j\<close> of a byte (\<open>fw0\<close>: bits 6-7, \<open>fw3\<close>:
  bits 0-1), table \<open>rvj\<close> the code of the complementary base; every other entry is
  \<open>0xFF\<close>.
\<close>

definition fw3 :: "byte list" where
  "fw3 = [
   0xFF, 0xFF, 0xFF, 0xFF, 0xFF, 0xFF, 0xFF, 0xFF,
   0xFF, 0xFF, 0xFF, 0xFF, 0xFF, 0xFF, 0xFF, 0xFF,
   0xFF, 0xFF, 0xFF, 0xFF, 0xFF, 0xFF, 0xFF, 0xFF,
   0xFF, 0xFF, 0xFF, 0xFF, 0xFF, 0xFF, 0xFF, 0xFF,
   0xFF, 0xFF, 0xFF, 0xFF, 0xFF, 0xFF, 0xFF, 0xFF,
   0xFF, 0xFF, 0xFF, 0xFF, 0xFF, 0xFF, 0xFF, 0xFF,
   0xFF, 0xFF, 0xFF, 0xFF, 0xFF, 0xFF, 0xFF, 0xFF,
   0xFF, 0xFF, 0xFF, 0xFF, 0xFF, 0xFF, 0xFF, 0xFF,
   0xFF, 0x00, 0xFF, 0x01, 0xFF, 0xFF, 0xFF, 0x02,
   0xFF, 0xFF, 0xFF, 0xFF, 0xFF, 0xFF, 0xFF, 0xFF,
   0xFF, 0xFF, 0xFF, 0xFF, 0x03, 0xFF, 0xFF, 0xFF,
   0xFF, 0xFF, 0xFF, 0xFF, 0xFF, 0xFF, 0xFF, 0xFF,
   0xFF, 0x00, 0xFF, 0x01, 0xFF, 0xFF, 0xFF, 0x02,
   0xFF, 0xFF, 0xFF, 0xFF, 0xFF, 0xFF, 0xFF, 0xFF,
   0xFF, 0xFF, 0xFF, 0xFF, 0x03, 0xFF, 0xFF, 0xFF,
   0xFF, 0xFF, 0xFF, 0xFF, 0xFF, 0xFF, 0xFF, 0xFF,
   0xFF, 0xFF, 0xFF, 0xFF, 0xFF, 0xFF, 0xFF, 0xFF,
   0xFF, 0xFF, 0xFF, 0xFF, 0xFF, 0xFF, 0xFF, 0xFF,
   0xFF, 0xFF, 0xFF, 0xFF, 0xFF, 0xFF, 0xFF, 0xFF,
   0xFF, 0xFF, 0xFF, 0xFF, 0xFF, 0xFF, 0xFF, 0xFF,
   0xFF, 0xFF, 0xFF, 0xFF, 0xFF, 0xFF, 0xFF, 0xFF,
   0xFF, 0xFF, 0xFF, 0xFF, 0xFF, 0xFF, 0xFF, 0xFF,
   0xFF, 0xFF, 0xFF, 0xFF, 0xFF, 0xFF, 0xFF, 0xFF,
   0xFF, 0xFF, 0xFF, 0xFF, 0xFF, 0xFF, 0xFF, 0xFF,
   0xFF, 0xFF, 0xFF, 0xFF, 0xFF, 0xFF, 0xFF, 0xFF,
   0xFF, 0xFF, 0xFF, 0xFF, 0xFF, 0xFF, 0xFF, 0xFF,
   0xFF, 0xFF, 0xFF, 0xFF, 0xFF, 0xFF, 0xFF, 0xFF,
   0xFF, 0xFF, 0xFF, 0xFF, 0xFF, 0xFF, 0xFF, 0xFF,
   0xFF, 0xFF, 0xFF, 0xFF, 0xFF, 0xFF, 0xFF, 0xFF,
   0xFF, 0xFF, 0xFF, 0xFF, 0xFF, 0xFF, 0xFF, 0xFF,
   0xFF, 0xFF, 0xFF, 0xFF, 0xFF, 0xFF, 0xFF, 0xFF,
   0xFF, 0xFF, 0xFF, 0xFF, 0xFF, 0xFF, 0xFF, 0xFF]"

definition fw2 :: "byte list" where
  "fw2 = [
   0xFF, 0xFF, 0xFF, 0xFF, 0xFF, 0xFF, 0xFF, 0xFF,
   0xFF, 0xFF, 0xFF, 0xFF, 0xFF, 0xFF, 0xFF, 0xFF,
   0xFF, 0xFF, 0xFF, 0xFF, 0xFF, 0xFF, 0xFF, 0xFF,
   0xFF, 0xFF, 0xFF, 0xFF, 0xFF, 0xFF, 0xFF, 0xFF,
   0xFF, 0xFF, 0xFF, 0xFF, 0xFF, 0xFF, 0xFF, 0xFF,
   0xFF, 0xFF, 0xFF, 0xFF, 0xFF, 0xFF, 0xFF, 0xFF,
   0xFF, 0xFF, 0xFF, 0xFF, 0xFF, 0xFF, 0xFF, 0xFF,
   0xFF, 0xFF, 0xFF, 0xFF, 0xFF, 0xFF, 0xFF, 0xFF,
   0xFF, 0x00, 0xFF, 0x04, 0xFF, 0xFF, 0xFF, 0x08,
   0xFF, 0xFF, 0xFF, 0xFF, 0xFF, 0xFF, 0xFF, 0xFF,
   0xFF, 0xFF, 0xFF, 0xFF, 0x0C, 0xFF, 0xFF, 0xFF,
   0xFF, 0xFF, 0xFF, 0xFF, 0xFF, 0xFF, 0xFF, 0xFF,
   0xFF, 0x00, 0xFF, 0x04, 0xFF, 0xFF, 0xFF, 0x08,
   0xFF, 0xFF, 0xFF, 0xFF, 0xFF, 0xFF, 0xFF, 0xFF,
   0xFF, 0xFF, 0xFF, 0xFF, 0x0C, 0xFF, 0xFF, 0xFF,
   0xFF, 0xFF, 0xFF, 0xFF, 0xFF, 0xFF, 0xFF, 0xFF,
   0xFF, 0xFF, 0xFF, 0xFF, 0xFF, 0xFF, 0xFF, 0xFF,
   0xFF, 0xFF, 0xFF, 0xFF, 0xFF, 0xFF, 0xFF, 0xFF,
   0xFF, 0xFF, 0xFF, 0xFF, 0xFF, 0xFF, 0xFF, 0xFF,
   0xFF, 0xFF, 0xFF, 0xFF, 0xFF, 0xFF, 0xFF, 0xFF,
   0xFF, 0xFF, 0xFF, 0xFF, 0xFF, 0xFF, 0xFF, 0xFF,
   0xFF, 0xFF, 0xFF, 0xFF, 0xFF, 0xFF, 0xFF, 0xFF,
   0xFF, 0xFF, 0xFF, 0xFF, 0xFF, 0xFF, 0xFF, 0xFF,
   0xFF, 0xFF, 0xFF, 0xFF, 0xFF, 0xFF, 0xFF, 0xFF,
   0xFF, 0xFF, 0xFF, 0xFF, 0xFF, 0xFF, 0xFF, 0xFF,
   0xFF, 0xFF, 0xFF, 0xFF, 0xFF, 0xFF, 0xFF, 0xFF,
   0xFF, 0xFF, 0xFF, 0xFF, 0xFF, 0xFF, 0xFF, 0xFF,
   0xFF, 0xFF, 0xFF, 0xFF, 0xFF, 0xFF, 0xFF, 0xFF,
   0xFF, 0xFF, 0xFF, 0xFF, 0xFF, 0xFF, 0xFF, 0xFF,
   0xFF, 0xFF, 0xFF, 0xFF, 0xFF, 0xFF, 0xFF, 0xFF,
   0xFF, 0xFF, 0xFF, 0xFF, 0xFF, 0xFF, 0xFF, 0xFF,
   0xFF, 0xFF, 0xFF, 0xFF, 0xFF, 0xFF, 0xFF, 0xFF]"

definition fw1 :: "byte list" where
  "fw1 = [
   0xFF, 0xFF, 0xFF, 0xFF, 0xFF, 0xFF, 0xFF, 0xFF,
   0xFF, 0xFF, 0xFF, 0xFF, 0xFF, 0xFF, 0xFF, 0xFF,
   0xFF, 0xFF, 0xFF, 0xFF, 0xFF, 0xFF, 0xFF, 0xFF,
   0xFF, 0xFF, 0xFF, 0xFF, 0xFF, 0xFF, 0xFF, 0xFF,
   0xFF, 0xFF, 0xFF, 0xFF, 0xFF, 0xFF, 0xFF, 0xFF,
   0xFF, 0xFF, 0xFF, 0xFF, 0xFF, 0xFF, 0xFF, 0xFF,
   0xFF, 0xFF, 0xFF, 0xFF, 0xFF, 0xFF, 0xFF, 0xFF,
   0xFF, 0xFF, 0xFF, 0xFF, 0xFF, 0xFF, 0xFF, 0xFF,
   0xFF, 0x00, 0xFF, 0x10, 0xFF, 0xFF, 0xFF, 0x20,
   0xFF, 0xFF, 0xFF, 0xFF, 0xFF, 0xFF, 0xFF, 0xFF,
   0xFF, 0xFF, 0xFF, 0xFF, 0x30, 0xFF, 0xFF, 0xFF,
   0xFF, 0xFF, 0xFF, 0xFF, 0xFF, 0xFF, 0xFF, 0xFF,
   0xFF, 0x00, 0xFF, 0x10, 0xFF, 0xFF, 0xFF, 0x20,
   0xFF, 0xFF, 0xFF, 0xFF, 0xFF, 0xFF, 0xFF, 0xFF,
   0xFF, 0xFF, 0xFF, 0xFF, 0x30, 0xFF, 0xFF, 0xFF,
   0xFF, 0xFF, 0xFF, 0xFF, 0xFF, 0xFF, 0xFF, 0xFF,
   0xFF, 0xFF, 0xFF, 0xFF, 0xFF, 0xFF, 0xFF, 0xFF,
   0xFF, 0xFF, 0xFF, 0xFF, 0xFF, 0xFF, 0xFF, 0xFF,
   0xFF, 0xFF, 0xFF, 0xFF, 0xFF, 0xFF, 0xFF, 0xFF,
   0xFF, 0xFF, 0xFF, 0xFF, 0xFF, 0xFF, 0xFF, 0xFF,
   0xFF, 0xFF, 0xFF, 0xFF, 0xFF, 0xFF, 0xFF, 0xFF,
   0xFF, 0xFF, 0xFF, 0xFF, 0xFF, 0xFF, 0xFF, 0xFF,
   0xFF, 0xFF, 0xFF, 0xFF, 0xFF, 0xFF, 0xFF, 0xFF,
   0xFF, 0xFF, 0xFF, 0xFF, 0xFF, 0xFF, 0xFF, 0xFF,
   0xFF, 0xFF, 0xFF, 0xFF, 0xFF, 0xFF, 0xFF, 0xFF,
   0xFF, 0xFF, 0xFF, 0xFF, 0xFF, 0xFF, 0xFF, 0xFF,
   0xFF, 0xFF, 0xFF, 0xFF, 0xFF, 0xFF, 0xFF, 0xFF,
   0xFF, 0xFF, 0xFF, 0xFF, 0xFF, 0xFF, 0xFF, 0xFF,
   0xFF, 0xFF, 0xFF, 0xFF, 0xFF, 0xFF, 0xFF, 0xFF,
   0xFF, 0xFF, 0xFF, 0xFF, 0xFF, 0xFF, 0xFF, 0xFF,
   0xFF, 0xFF, 0xFF, 0xFF, 0xFF, 0xFF, 0xFF, 0xFF,
   0xFF, 0xFF, 0xFF, 0xFF, 0xFF, 0xFF, 0xFF, 0xFF]"

definition fw0 :: "byte list" where
  "fw0 = [
   0xFF, 0xFF, 0xFF, 0xFF, 0xFF, 0xFF, 0xFF, 0xFF,
   0xFF, 0xFF, 0xFF, 0xFF, 0xFF, 0xFF, 0xFF, 0xFF,
   0xFF, 0xFF, 0xFF, 0xFF, 0xFF, 0xFF, 0xFF, 0xFF,
   0xFF, 0xFF, 0xFF, 0xFF, 0xFF, 0xFF, 0xFF, 0xFF,
   0xFF, 0xFF, 0xFF, 0xFF, 0xFF, 0xFF, 0xFF, 0xFF,
   0xFF, 0xFF, 0xFF, 0xFF, 0xFF, 0xFF, 0xFF, 0xFF,
   0xFF, 0xFF, 0xFF, 0xFF, 0xFF, 0xFF, 0xFF, 0xFF,
   0xFF, 0xFF, 0xFF, 0xFF, 0xFF, 0xFF, 0xFF, 0xFF,
   0xFF, 0x00, 0xFF, 0x40, 0xFF, 0xFF, 0xFF, 0x80,
   0xFF, 0xFF, 0xFF, 0xFF, 0xFF, 0xFF, 0xFF, 0xFF,
   0xFF, 0xFF, 0xFF, 0xFF, 0xC0, 0xFF, 0xFF, 0xFF,
   0xFF, 0xFF, 0xFF, 0xFF, 0xFF, 0xFF, 0xFF, 0xFF,
   0xFF, 0x00, 0xFF, 0x40, 0xFF, 0xFF, 0xFF, 0x80,
   0xFF, 0xFF, 0xFF, 0xFF, 0xFF, 0xFF, 0xFF, 0xFF,
   0xFF, 0xFF, 0xFF, 0xFF, 0xC0, 0xFF, 0xFF, 0xFF,
   0xFF, 0xFF, 0xFF, 0xFF, 0xFF, 0xFF, 0xFF, 0xFF,
   0xFF, 0xFF, 0xFF, 0xFF, 0xFF, 0xFF, 0xFF, 0xFF,
   0xFF, 0xFF, 0xFF, 0xFF, 0xFF, 0xFF, 0xFF, 0xFF,
   0xFF, 0xFF, 0xFF, 0xFF, 0xFF, 0xFF, 0xFF, 0xFF,
   0xFF, 0xFF, 0xFF, 0xFF, 0xFF, 0xFF, 0xFF, 0xFF,
   0xFF, 0xFF, 0xFF, 0xFF, 0xFF, 0xFF, 0xFF, 0xFF,
   0xFF, 0xFF, 0xFF, 0xFF, 0xFF, 0xFF, 0xFF, 0xFF,
   0xFF, 0xFF, 0xFF, 0xFF, 0xFF, 0xFF, 0xFF, 0xFF,
   0xFF, 0xFF, 0xFF, 0xFF, 0xFF, 0xFF, 0xFF, 0xFF,
   0xFF, 0xFF, 0xFF, 0xFF, 0xFF, 0xFF, 0xFF, 0xFF,
   0xFF, 0xFF, 0xFF, 0xFF, 0xFF, 0xFF, 0xFF, 0xFF,
   0xFF, 0xFF, 0xFF, 0xFF, 0xFF, 0xFF, 0xFF, 0xFF,
   0xFF, 0xFF, 0xFF, 0xFF, 0xFF, 0xFF, 0xFF, 0xFF,
   0xFF, 0xFF, 0xFF, 0xFF, 0xFF, 0xFF, 0xFF, 0xFF,
   0xFF, 0xFF, 0xFF, 0xFF, 0xFF, 0xFF, 0xFF, 0xFF,
   0xFF, 0xFF, 0xFF, 0xFF, 0xFF, 0xFF, 0xFF, 0xFF,
   0xFF, 0xFF, 0xFF, 0xFF, 0xFF, 0xFF, 0xFF, 0xFF]"

definition rv3 :: "byte list" where
  "rv3 = [
   0xFF, 0xFF, 0xFF, 0xFF, 0xFF, 0xFF, 0xFF, 0xFF,
   0xFF, 0xFF, 0xFF, 0xFF, 0xFF, 0xFF, 0xFF, 0xFF,
   0xFF, 0xFF, 0xFF, 0xFF, 0xFF, 0xFF, 0xFF, 0xFF,
   0xFF, 0xFF, 0xFF, 0xFF, 0xFF, 0xFF, 0xFF, 0xFF,
   0xFF, 0xFF, 0xFF, 0xFF, 0xFF, 0xFF, 0xFF, 0xFF,
   0xFF, 0xFF, 0xFF, 0xFF, 0xFF, 0xFF, 0xFF, 0xFF,
   0xFF, 0xFF, 0xFF, 0xFF, 0xFF, 0xFF, 0xFF, 0xFF,
   0xFF, 0xFF, 0xFF, 0xFF, 0xFF, 0xFF, 0xFF, 0xFF,
   0xFF, 0x03, 0xFF, 0x02, 0xFF, 0xFF, 0xFF, 0x01,
   0xFF, 0xFF, 0xFF, 0xFF, 0xFF, 0xFF, 0xFF, 0xFF,
   0xFF, 0xFF, 0xFF, 0xFF, 0x00, 0xFF, 0xFF, 0xFF,
   0xFF, 0xFF, 0xFF, 0xFF, 0xFF, 0xFF, 0xFF, 0xFF,
   0xFF, 0x03, 0xFF, 0x02, 0xFF, 0xFF, 0xFF, 0x01,
   0xFF, 0xFF, 0xFF, 0xFF, 0xFF, 0xFF, 0xFF, 0xFF,
   0xFF, 0xFF, 0xFF, 0xFF, 0x00, 0xFF, 0xFF, 0xFF,
   0xFF, 0xFF, 0xFF, 0xFF, 0xFF, 0xFF, 0xFF, 0xFF,
   0xFF, 0xFF, 0xFF, 0xFF, 0xFF, 0xFF, 0xFF, 0xFF,
   0xFF, 0xFF, 0xFF, 0xFF, 0xFF, 0xFF, 0xFF, 0xFF,
   0xFF, 0xFF, 0xFF, 0xFF, 0xFF, 0xFF, 0xFF, 0xFF,
   0xFF, 0xFF, 0xFF, 0xFF, 0xFF, 0xFF, 0xFF, 0xFF,
   0xFF, 0xFF, 0xFF, 0xFF, 0xFF, 0xFF, 0xFF, 0xFF,
   0xFF, 0xFF, 0xFF, 0xFF, 0xFF, 0xFF, 0xFF, 0xFF,
   0xFF, 0xFF, 0xFF, 0xFF, 0xFF, 0xFF, 0xFF, 0xFF,
   0xFF, 0xFF, 0xFF, 0xFF, 0xFF, 0xFF, 0xFF, 0xFF,
   0xFF, 0xFF, 0xFF, 0xFF, 0xFF, 0xFF, 0xFF, 0xFF,
   0xFF, 0xFF, 0xFF, 0xFF, 0xFF, 0xFF, 0xFF, 0xFF,
   0xFF, 0xFF, 0xFF, 0xFF, 0xFF, 0xFF, 0xFF, 0xFF,
   0xFF, 0xFF, 0xFF, 0xFF, 0xFF, 0xFF, 0xFF, 0xFF,
   0xFF, 0xFF, 0xFF, 0xFF, 0xFF, 0xFF, 0xFF, 0xFF,
   0xFF, 0xFF, 0xFF, 0xFF, 0xFF, 0xFF, 0xFF, 0xFF,
   0xFF, 0xFF, 0xFF, 0xFF, 0xFF, 0xFF, 0xFF, 0xFF,
   0xFF, 0xFF, 0xFF, 0xFF, 0xFF, 0xFF, 0xFF, 0xFF]"

definition rv2 :: "byte list" where
  "rv2 = [
   0xFF, 0xFF, 0xFF, 0xFF, 0xFF, 0xFF, 0xFF, 0xFF,
   0xFF, 0xFF, 0xFF, 0xFF, 0xFF, 0xFF, 0xFF, 0xFF,
   0xFF, 0xFF, 0xFF, 0xFF, 0xFF, 0xFF, 0xFF, 0xFF,
   0xFF, 0xFF, 0xFF, 0xFF, 0xFF, 0xFF, 0xFF, 0xFF,
   0xFF, 0xFF, 0xFF, 0xFF, 0xFF, 0xFF, 0xFF, 0xFF,
   0xFF, 0xFF, 0xFF, 0xFF, 0xFF, 0xFF, 0xFF, 0xFF,
   0xFF, 0xFF, 0xFF, 0xFF, 0xFF, 0xFF, 0xFF, 0xFF,
   0xFF, 0xFF, 0xFF, 0xFF, 0xFF, 0xFF, 0xFF, 0xFF,
   0xFF, 0x0C, 0xFF, 0x08, 0xFF, 0xFF, 0xFF, 0x04,
   0xFF, 0xFF, 0xFF, 0xFF, 0xFF, 0xFF, 0xFF, 0xFF,
   0xFF, 0xFF, 0xFF, 0xFF, 0x00, 0xFF, 0xFF, 0xFF,
   0xFF, 0xFF, 0xFF, 0xFF, 0xFF, 0xFF, 0xFF, 0xFF,
   0xFF, 0x0C, 0xFF, 0x08, 0xFF, 0xFF, 0xFF, 0x04,
   0xFF, 0xFF, 0xFF, 0xFF, 0xFF, 0xFF, 0xFF, 0xFF,
   0xFF, 0xFF, 0xFF, 0xFF, 0x00, 0xFF, 0xFF, 0xFF,
   0xFF, 0xFF, 0xFF, 0xFF, 0xFF, 0xFF, 0xFF, 0xFF,
   0xFF, 0xFF, 0xFF, 0xFF, 0xFF, 0xFF, 0xFF, 0xFF,
   0xFF, 0xFF, 0xFF, 0xFF, 0xFF, 0xFF, 0xFF, 0xFF,
   0xFF, 0xFF, 0xFF, 0xFF, 0xFF, 0xFF, 0xFF, 0xFF,
   0xFF, 0xFF, 0xFF, 0xFF, 0xFF, 0xFF, 0xFF, 0xFF,
   0xFF, 0xFF, 0xFF, 0xFF, 0xFF, 0xFF, 0xFF, 0xFF,
   0xFF, 0xFF, 0xFF, 0xFF, 0xFF, 0xFF, 0xFF, 0xFF,
   0xFF, 0xFF, 0xFF, 0xFF, 0xFF, 0xFF, 0xFF, 0xFF,
   0xFF, 0xFF, 0xFF, 0xFF, 0xFF, 0xFF, 0xFF, 0xFF,
   0xFF, 0xFF, 0xFF, 0xFF, 0xFF, 0xFF, 0xFF, 0xFF,
   0xFF, 0xFF, 0xFF, 0xFF, 0xFF, 0xFF, 0xFF, 0xFF,
   0xFF, 0xFF, 0xFF, 0xFF, 0xFF, 0xFF, 0xFF, 0xFF,
   0xFF, 0xFF, 0xFF, 0xFF, 0xFF, 0xFF, 0xFF, 0xFF,
   0xFF, 0xFF, 0xFF, 0xFF, 0xFF, 0xFF, 0xFF, 0xFF,
   0xFF, 0xFF, 0xFF, 0xFF, 0xFF, 0xFF, 0xFF, 0xFF,
   0xFF, 0xFF, 0xFF, 0xFF, 0xFF, 0xFF, 0xFF, 0xFF,
   0xFF, 0xFF, 0xFF, 0xFF, 0xFF, 0xFF, 0xFF, 0xFF]"

definition rv1 :: "byte list" where
  "rv1 = [
   0xFF, 0xFF, 0xFF, 0xFF, 0xFF, 0xFF, 0xFF, 0xFF,
   0xFF, 0xFF, 0xFF, 0xFF, 0xFF, 0xFF, 0xFF, 0xFF,
   0xFF, 0xFF, 0xFF, 0xFF, 0xFF, 0xFF, 0xFF, 0xFF,
   0xFF, 0xFF, 0xFF, 0xFF, 0xFF, 0xFF, 0xFF, 0xFF,
   0xFF, 0xFF, 0xFF, 0xFF, 0xFF, 0xFF, 0xFF, 0xFF,
   0xFF, 0xFF, 0xFF, 0xFF, 0xFF, 0xFF, 0xFF, 0xFF,
   0xFF, 0xFF, 0xFF, 0xFF, 0xFF, 0xFF, 0xFF, 0xFF,
   0xFF, 0xFF, 0xFF, 0xFF, 0xFF, 0xFF, 0xFF, 0xFF,
   0xFF, 0x30, 0xFF, 0x20, 0xFF, 0xFF, 0xFF, 0x10,
   0xFF, 0xFF, 0xFF, 0xFF, 0xFF, 0xFF, 0xFF, 0xFF,
   0xFF, 0xFF, 0xFF, 0xFF, 0x00, 0xFF, 0xFF, 0xFF,
   0xFF, 0xFF, 0xFF, 0xFF, 0xFF, 0xFF, 0xFF, 0xFF,
   0xFF, 0x30, 0xFF, 0x20, 0xFF, 0xFF, 0xFF, 0x10,
   0xFF, 0xFF, 0xFF, 0xFF, 0xFF, 0xFF, 0xFF, 0xFF,
   0xFF, 0xFF, 0xFF, 0xFF, 0x00, 0xFF, 0xFF, 0xFF,
   0xFF, 0xFF, 0xFF, 0xFF, 0xFF, 0xFF, 0xFF, 0xFF,
   0xFF, 0xFF, 0xFF, 0xFF, 0xFF, 0xFF, 0xFF, 0xFF,
   0xFF, 0xFF, 0xFF, 0xFF, 0xFF, 0xFF, 0xFF, 0xFF,
   0xFF, 0xFF, 0xFF, 0xFF, 0xFF, 0xFF, 0xFF, 0xFF,
   0xFF, 0xFF, 0xFF, 0xFF, 0xFF, 0xFF, 0xFF, 0xFF,
   0xFF, 0xFF, 0xFF, 0xFF, 0xFF, 0xFF, 0xFF, 0xFF,
   0xFF, 0xFF, 0xFF, 0xFF, 0xFF, 0xFF, 0xFF, 0xFF,
   0xFF, 0xFF, 0xFF, 0xFF, 0xFF, 0xFF, 0xFF, 0xFF,
   0xFF, 0xFF, 0xFF, 0xFF, 0xFF, 0xFF, 0xFF, 0xFF,
   0xFF, 0xFF, 0xFF, 0xFF, 0xFF, 0xFF, 0xFF, 0xFF,
   0xFF, 0xFF, 0xFF, 0xFF, 0xFF, 0xFF, 0xFF, 0xFF,
   0xFF, 0xFF, 0xFF, 0xFF, 0xFF, 0xFF, 0xFF, 0xFF,
   0xFF, 0xFF, 0xFF, 0xFF, 0xFF, 0xFF, 0xFF, 0xFF,
   0xFF, 0xFF, 0xFF, 0xFF, 0xFF, 0xFF, 0xFF, 0xFF,
   0xFF, 0xFF, 0xFF, 0xFF, 0xFF, 0xFF, 0xFF, 0xFF,
   0xFF, 0xFF, 0xFF, 0xFF, 0xFF, 0xFF, 0xFF, 0xFF,
   0xFF, 0xFF, 0xFF, 0xFF, 0xFF, 0xFF, 0xFF, 0xFF]"

definition rv0 :: "byte list" where
  "rv0 = [
   0xFF, 0xFF, 0xFF, 0xFF, 0xFF, 0xFF, 0xFF, 0xFF,
   0xFF, 0xFF, 0xFF, 0xFF, 0xFF, 0xFF, 0xFF, 0xFF,
   0xFF, 0xFF, 0xFF, 0xFF, 0xFF, 0xFF, 0xFF, 0xFF,
   0xFF, 0xFF, 0xFF, 0xFF, 0xFF, 0xFF, 0xFF, 0xFF,
   0xFF, 0xFF, 0xFF, 0xFF, 0xFF, 0xFF, 0xFF, 0xFF,
   0xFF, 0xFF, 0xFF, 0xFF, 0xFF, 0xFF, 0xFF, 0xFF,
   0xFF, 0xFF, 0xFF, 0xFF, 0xFF, 0xFF, 0xFF, 0xFF,
   0xFF, 0xFF, 0xFF, 0xFF, 0xFF, 0xFF, 0xFF, 0xFF,
   0xFF, 0xC0, 0xFF, 0x80, 0xFF, 0xFF, 0xFF, 0x40,
   0xFF, 0xFF, 0xFF, 0xFF, 0xFF, 0xFF, 0xFF, 0xFF,
   0xFF, 0xFF, 0xFF, 0xFF, 0x00, 0xFF, 0xFF, 0xFF,
   0xFF, 0xFF, 0xFF, 0xFF, 0xFF, 0xFF, 0xFF, 0xFF,
   0xFF, 0xC0, 0xFF, 0x80, 0xFF, 0xFF, 0xFF, 0x40,
   0xFF, 0xFF, 0xFF, 0xFF, 0xFF, 0xFF, 0xFF, 0xFF,
   0xFF, 0xFF, 0xFF, 0xFF, 0x00, 0xFF, 0xFF, 0xFF,
   0xFF, 0xFF, 0xFF, 0xFF, 0xFF, 0xFF, 0xFF, 0xFF,
   0xFF, 0xFF, 0xFF, 0xFF, 0xFF, 0xFF, 0xFF, 0xFF,
   0xFF, 0xFF, 0xFF, 0xFF, 0xFF, 0xFF, 0xFF, 0xFF,
   0xFF, 0xFF, 0xFF, 0xFF, 0xFF, 0xFF, 0xFF, 0xFF,
   0xFF, 0xFF, 0xFF, 0xFF, 0xFF, 0xFF, 0xFF, 0xFF,
   0xFF, 0xFF, 0xFF, 0xFF, 0xFF, 0xFF, 0xFF, 0xFF,
   0xFF, 0xFF, 0xFF, 0xFF, 0xFF, 0xFF, 0xFF, 0xFF,
   0xFF, 0xFF, 0xFF, 0xFF, 0xFF, 0xFF, 0xFF, 0xFF,
   0xFF, 0xFF, 0xFF, 0xFF, 0xFF, 0xFF, 0xFF, 0xFF,
   0xFF, 0xFF, 0xFF, 0xFF, 0xFF, 0xFF, 0xFF, 0xFF,
   0xFF, 0xFF, 0xFF, 0xFF, 0xFF, 0xFF, 0xFF, 0xFF,
   0xFF, 0xFF, 0xFF, 0xFF, 0xFF, 0xFF, 0xFF, 0xFF,
   0xFF, 0xFF, 0xFF, 0xFF, 0xFF, 0xFF, 0xFF, 0xFF,
   0xFF, 0xFF, 0xFF, 0xFF, 0xFF, 0xFF, 0xFF, 0xFF,
   0xFF, 0xFF, 0xFF, 0xFF, 0xFF, 0xFF, 0xFF, 0xFF,
   0xFF, 0xFF, 0xFF, 0xFF, 0xFF, 0xFF, 0xFF, 0xFF,
   0xFF, 0xFF, 0xFF, 0xFF, 0xFF, 0xFF, 0xFF, 0xFF]"
subsection \<open>Memory accesses\<close>

text \<open>
  \<open>static_cast<unsigned char>(sequence[i])\<close> on a \<open>const std::string\<close>: the character
  at \<open>i\<close> as a table index; \<open>sequence[size()]\<close> is the terminating zero, any index
  beyond it is undefined behaviour (\<open>None\<close>). Reads and writes of the scratch buffers
  and of the array given to \<open>getBases\<close> outside their bounds are undefined behaviour
  as well.
\<close>

definition seq_at :: "string \<Rightarrow> nat \<Rightarrow> nat option" where
  "seq_at sequence i =
     (if i < length sequence then Some (of_char (sequence ! i))
      else if i = length sequence then Some 0
      else None)"

definition buf_read :: "byte list \<Rightarrow> nat \<Rightarrow> byte option" where
  "buf_read buf i = (if i < length buf then Some (buf ! i) else None)"

definition buf_write :: "byte list \<Rightarrow> nat \<Rightarrow> byte \<Rightarrow> byte list option" where
  "buf_write buf i v = (if i < length buf then Some (buf[i := v]) else None)"

definition buf_or :: "byte list \<Rightarrow> nat \<Rightarrow> byte \<Rightarrow> byte list option" where
  "buf_or buf i v = do { x \<leftarrow> buf_read buf i; buf_write buf i (x OR v) }"

definition memset :: "byte list \<Rightarrow> byte \<Rightarrow> nat \<Rightarrow> byte list option" where
  "memset buf v n = (if n \<le> length buf then Some (replicate n v @ drop n buf) else None)"

subsection \<open>getBases\<close>

function getBases_loop ::
  "nat \<Rightarrow> byte list \<Rightarrow> nat \<Rightarrow> nat \<Rightarrow> int \<Rightarrow> string \<Rightarrow> string option" where
  "getBases_loop kmerSize c i currentIndex currentOffset bases =
     (if i < kmerSize then
        let (currentIndex, currentOffset) =
              (if currentOffset = -1 then (currentIndex + 1, 3)
               else (currentIndex, currentOffset))
        in do {
          currentChr \<leftarrow> buf_read c currentIndex;
          let currentChr = drop_bit (nat (2 * currentOffset)) currentChr;
          let currentChr = currentChr AND 3;
          getBases_loop kmerSize c (i + 1) currentIndex (currentOffset - 1)
            (bases @ [''ACGT'' ! unat currentChr])
        }
      else Some bases)"
  by pat_completeness auto
termination
  by (relation "measure (\<lambda>(kmerSize, c, i, currentIndex, currentOffset, bases). kmerSize - i)")
     auto

definition getBases :: "ReadsProcessor \<Rightarrow> byte list \<Rightarrow> string option" where
  "getBases rp c = getBases_loop (m_kmerSize rp) c 0 0 3 ''''"

subsection \<open>prepSeq\<close>

datatype ptr = NULL | M_fw | M_rv

text \<open>
  One full byte of the forward strand, as the source writes it three times: three
  table entries are or-ed into \<open>m_fw[outputIndex]\<close>, the byte and the fourth entry are
  tested against \<open>0xFF\<close> (the second test only if the first fails), and the fourth
  entry is or-ed in. The flag is \<open>False\<close> where the source returns \<open>NULL\<close>.
\<close>

definition fw_byte :: "string \<Rightarrow> nat \<Rightarrow> nat \<Rightarrow> byte list \<Rightarrow> (bool \<times> byte list) option" where
  "fw_byte sequence index outputIndex fw = do {
     c \<leftarrow> seq_at sequence index;
     fw \<leftarrow> buf_or fw outputIndex (fw0 ! c);
     c \<leftarrow> seq_at sequence (index + 1);
     fw \<leftarrow> buf_or fw outputIndex (fw1 ! c);
     c \<leftarrow> seq_at sequence (index + 2);
     fw \<leftarrow> buf_or fw outputIndex (fw2 ! c);
     b \<leftarrow> buf_read fw outputIndex;
     if b = 0xFF then Some (False, fw)
     else do {
       c \<leftarrow> seq_at sequence (index + 3);
       if fw3 ! c = 0xFF then Some (False, fw)
       else do {
         fw \<leftarrow> buf_or fw outputIndex (fw3 ! c);
         Some (True, fw)
       }
     }
   }"

text \<open>The same for the reverse strand, walking down from \<open>revIndex\<close>.\<close>

definition rv_byte :: "string \<Rightarrow> nat \<Rightarrow> nat \<Rightarrow> byte list \<Rightarrow> (bool \<times> byte list) option" where
  "rv_byte sequence revIndex outputIndex rv = do {
     c \<leftarrow> seq_at sequence revIndex;
     rv \<leftarrow> buf_or rv outputIndex (rv0 ! c);
     c \<leftarrow> seq_at sequence (size_dec revIndex);
     rv \<leftarrow> buf_or rv outputIndex (rv1 ! c);
     c \<leftarrow> seq_at sequence (size_dec (size_dec revIndex));
     rv \<leftarrow> buf_or rv outputIndex (rv2 ! c);
     b \<leftarrow> buf_read rv outputIndex;
     if b = 0xFF then Some (False, rv)
     else do {
       c \<leftarrow> seq_at sequence (size_dec (size_dec (size_dec revIndex)));
       if rv3 ! c = 0xFF then Some (False, rv)
       else do {
         rv \<leftarrow> buf_or rv outputIndex (rv3 ! c);
         Some (True, rv)
       }
     }
   }"

text \<open>
  Forward strand is smaller: the loop over the remaining full bytes. It yields
  \<open>(False, _)\<close> where the source returns \<open>NULL\<close>, and otherwise the values of
  \<open>index\<close>, \<open>outputIndex\<close> and the buffer at the loop's exit.
\<close>

function fw_rest ::
  "ReadsProcessor \<Rightarrow> string \<Rightarrow> nat \<Rightarrow> nat \<Rightarrow> byte list \<Rightarrow> (bool \<times> nat \<times> nat \<times> byte list) option" where
  "fw_rest rp sequence index outputIndex fw =
     (if outputIndex + m_hangingBasesExist rp < m_kmerSizeInBytes rp then
        case fw_byte sequence index outputIndex fw of
          None \<Rightarrow> None
        | Some (ok, fw) \<Rightarrow>
            if \<not> ok then Some (False, index, outputIndex, fw)
            else fw_rest rp sequence (index + 4) (outputIndex + 1) fw
      else Some (True, index, outputIndex, fw))"
  by pat_completeness auto
termination
  by (relation "measure (\<lambda>(rp, sequence, index, outputIndex, fw). m_kmerSizeInBytes rp - outputIndex)")
     auto

text \<open>
  The last, partial byte of the forward strand:
  \<open>for (; index <= lastPos; --lastPos)\<close>. With \<open>index = 0\<close> the decrement would wrap
  and the loop would not end before an out-of-range read, so that the loop is a
  partial function: \<open>None\<close> is undefined behaviour or no return.
\<close>

partial_function (option) fw_last_loop ::
  "string \<Rightarrow> nat \<Rightarrow> nat \<Rightarrow> nat \<Rightarrow> byte list \<Rightarrow> byte list option" where
  "fw_last_loop sequence index outputIndex lastPos fw =
     (if index \<le> lastPos then do {
        b \<leftarrow> buf_read fw outputIndex;
        fw \<leftarrow> buf_write fw outputIndex (drop_bit 2 b);
        c \<leftarrow> seq_at sequence lastPos;
        fw \<leftarrow> buf_or fw outputIndex (fw0 ! c);
        fw_last_loop sequence index outputIndex (size_dec lastPos) fw
      }
      else Some fw)"

declare fw_last_loop.simps [code]

definition forward_smaller ::
  "ReadsProcessor \<Rightarrow> string \<Rightarrow> nat \<Rightarrow> nat \<Rightarrow> nat \<Rightarrow> byte list \<Rightarrow> byte list \<Rightarrow>
     (ptr \<times> byte list \<times> byte list) option" where
  "forward_smaller rp sequence position index outputIndex fw rv = do {
     (ok, index, outputIndex, fw) \<leftarrow> fw_rest rp sequence index (outputIndex + 1) fw;
     if \<not> ok then Some (NULL, fw, rv)
     else if m_hangingBasesExist rp \<noteq> 0 then do {
       let lastPos = size_dec (position + m_kmerSize rp);
       c \<leftarrow> seq_at sequence lastPos;
       fw \<leftarrow> buf_write fw outputIndex (fw0 ! c);
       fw \<leftarrow> fw_last_loop sequence index outputIndex (size_dec lastPos) fw;
       b \<leftarrow> buf_read fw outputIndex;
       if b = 0xFF then Some (NULL, fw, rv) else Some (M_fw, fw, rv)
     }
     else Some (M_fw, fw, rv)
   }"

text \<open>Reverse strand is smaller: the remaining full bytes, then the partial byte.\<close>

function rv_rest ::
  "ReadsProcessor \<Rightarrow> string \<Rightarrow> nat \<Rightarrow> nat \<Rightarrow> byte list \<Rightarrow> (bool \<times> nat \<times> nat \<times> byte list) option" where
  "rv_rest rp sequence revIndex outputIndex rv =
     (if outputIndex + m_hangingBasesExist rp < m_kmerSizeInBytes rp then
        case rv_byte sequence revIndex outputIndex rv of
          None \<Rightarrow> None
        | Some (ok, rv) \<Rightarrow>
            if \<not> ok then Some (False, revIndex, outputIndex, rv)
            else rv_rest rp sequence (size_dec (size_dec (size_dec (size_dec revIndex))))
                   (outputIndex + 1) rv
      else Some (True, revIndex, outputIndex, rv))"
  by pat_completeness auto
termination
  by (relation "measure (\<lambda>(rp, sequence, revIndex, outputIndex, rv). m_kmerSizeInBytes rp - outputIndex)")
     auto

function rv_last_loop ::
  "string \<Rightarrow> nat \<Rightarrow> nat \<Rightarrow> nat \<Rightarrow> byte list \<Rightarrow> byte list option" where
  "rv_last_loop sequence revIndex outputIndex position rv =
     (if revIndex \<ge> position then
        case buf_read rv outputIndex of
          None \<Rightarrow> None
        | Some b \<Rightarrow>
           (case buf_write rv outputIndex (drop_bit 2 b) of
              None \<Rightarrow> None
            | Some rv \<Rightarrow>
               (case seq_at sequence position of
                  None \<Rightarrow> None
                | Some c \<Rightarrow>
                   (case buf_or rv outputIndex (rv0 ! c) of
                      None \<Rightarrow> None
                    | Some rv \<Rightarrow> rv_last_loop sequence revIndex outputIndex (position + 1) rv)))
      else Some rv)"
  by pat_completeness auto
termination
  by (relation "measure (\<lambda>(sequence, revIndex, outputIndex, position, rv). revIndex + 1 - position)")
     auto

definition reverse_smaller ::
  "ReadsProcessor \<Rightarrow> string \<Rightarrow> nat \<Rightarrow> nat \<Rightarrow> nat \<Rightarrow> byte list \<Rightarrow> byte list \<Rightarrow>
     (ptr \<times> byte list \<times> byte list) option" where
  "reverse_smaller rp sequence position revIndex outputIndex fw rv = do {
     (ok, revIndex, outputIndex, rv) \<leftarrow> rv_rest rp sequence revIndex (outputIndex + 1) rv;
     if \<not> ok then Some (NULL, fw, rv)
     else if m_hangingBasesExist rp \<noteq> 0 then do {
       c \<leftarrow> seq_at sequence position;
       rv \<leftarrow> buf_write rv outputIndex (rv0 ! c);
       rv \<leftarrow> rv_last_loop sequence revIndex outputIndex (position + 1) rv;
       b \<leftarrow> buf_read rv outputIndex;
       if b = 0xFF then Some (NULL, fw, rv) else Some (M_rv, fw, rv)
     }
     else Some (M_rv, fw, rv)
   }"

text \<open>
  The code after the comparison loop (\<open>//palamdromic\<close>). Its first loop starts with
  \<open>++outputIndex\<close> and advances \<open>index\<close> by three per byte (the fourth character is read
  at \<open>sequence[index]\<close> without an increment); its last byte is built with \<open>|=\<close> and
  \<open><< 2\<close> under \<open>for (; index < lastPos; --lastPos)\<close>.
\<close>

function pal_rest ::
  "ReadsProcessor \<Rightarrow> string \<Rightarrow> nat \<Rightarrow> nat \<Rightarrow> byte list \<Rightarrow> (bool \<times> nat \<times> nat \<times> byte list) option" where
  "pal_rest rp sequence index outputIndex fw =
     (if outputIndex + m_hangingBasesExist rp < m_kmerSizeInBytes rp then
        case fw_byte sequence index outputIndex fw of
          None \<Rightarrow> None
        | Some (ok, fw) \<Rightarrow>
            if \<not> ok then Some (False, index, outputIndex, fw)
            else pal_rest rp sequence (index + 3) (outputIndex + 1) fw
      else Some (True, index, outputIndex, fw))"
  by pat_completeness auto
termination
  by (relation "measure (\<lambda>(rp, sequence, index, outputIndex, fw). m_kmerSizeInBytes rp - outputIndex)")
     auto

function pal_last_loop ::
  "string \<Rightarrow> nat \<Rightarrow> nat \<Rightarrow> nat \<Rightarrow> byte list \<Rightarrow> byte list option" where
  "pal_last_loop sequence index outputIndex lastPos fw =
     (if index < lastPos then
        case buf_read fw outputIndex of
          None \<Rightarrow> None
        | Some b \<Rightarrow>
           (case buf_write fw outputIndex (push_bit 2 b) of
              None \<Rightarrow> None
            | Some fw \<Rightarrow>
               (case seq_at sequence lastPos of
                  None \<Rightarrow> None
                | Some c \<Rightarrow>
                   (case buf_or fw outputIndex (fw0 ! c) of
                      None \<Rightarrow> None
                    | Some fw \<Rightarrow> pal_last_loop sequence index outputIndex (size_dec lastPos) fw)))
      else Some fw)"
  by pat_completeness auto
termination
  by (relation "measure (\<lambda>(sequence, index, outputIndex, lastPos, fw). lastPos)")
     (auto simp: size_dec_def)

definition palindromic ::
  "ReadsProcessor \<Rightarrow> string \<Rightarrow> nat \<Rightarrow> nat \<Rightarrow> nat \<Rightarrow> byte list \<Rightarrow> byte list \<Rightarrow>
     (ptr \<times> byte list \<times> byte list) option" where
  "palindromic rp sequence position index outputIndex fw rv = do {
     (ok, index, outputIndex, fw) \<leftarrow> pal_rest rp sequence index (outputIndex + 1) fw;
     if \<not> ok then Some (NULL, fw, rv)
     else if m_hangingBases rp \<noteq> 0 then do {
       let lastPos = size_dec (position + m_kmerSize rp);
       c \<leftarrow> seq_at sequence lastPos;
       fw \<leftarrow> buf_or fw outputIndex (fw0 ! c);
       fw \<leftarrow> pal_last_loop sequence index outputIndex lastPos fw;
       b \<leftarrow> buf_read fw outputIndex;
       if b = 0xFF then Some (NULL, fw, rv) else Some (M_fw, fw, rv)
     }
     else Some (M_fw, fw, rv)
   }"

text \<open>
  One round of the comparison loop: the forward byte, the reverse byte, and the
  comparison of the two as unsigned bytes.
\<close>

datatype verdict = Invalid | ForwardSmaller | ReverseSmaller | Tie

definition compare_byte ::
  "string \<Rightarrow> nat \<Rightarrow> nat \<Rightarrow> nat \<Rightarrow> byte list \<Rightarrow> byte list \<Rightarrow>
     (verdict \<times> byte list \<times> byte list) option" where
  "compare_byte sequence index revIndex outputIndex fw rv = do {
     (ok, fw) \<leftarrow> fw_byte sequence index outputIndex fw;
     if \<not> ok then Some (Invalid, fw, rv)
     else do {
       (ok, rv) \<leftarrow> rv_byte sequence revIndex outputIndex rv;
       if \<not> ok then Some (Invalid, fw, rv)
       else do {
         f \<leftarrow> buf_read fw outputIndex;
         r \<leftarrow> buf_read rv outputIndex;
         if f < r then Some (ForwardSmaller, fw, rv)
         else if f > r then Some (ReverseSmaller, fw, rv)
         else Some (Tie, fw, rv)
       }
     }
   }"

text \<open>
  The comparison loop over the first \<open>m_halfSizeOfKmerInBytes\<close> bytes. An invalid
  character and each decided comparison return from \<open>prepSeq\<close>; when the loop condition
  fails, control falls through to the code for the palindromic case.
\<close>

function prepSeq_loop ::
  "ReadsProcessor \<Rightarrow> string \<Rightarrow> nat \<Rightarrow> nat \<Rightarrow> nat \<Rightarrow> nat \<Rightarrow> byte list \<Rightarrow> byte list \<Rightarrow>
     (ptr \<times> byte list \<times> byte list) option" where
  "prepSeq_loop rp sequence position index revIndex outputIndex fw rv =
     (if outputIndex < m_halfSizeOfKmerInBytes rp then
        case compare_byte sequence index revIndex outputIndex fw rv of
          None \<Rightarrow> None
        | Some (Invalid, fw, rv) \<Rightarrow> Some (NULL, fw, rv)
        | Some (ForwardSmaller, fw, rv) \<Rightarrow>
            forward_smaller rp sequence position (index + 4) outputIndex fw rv
        | Some (ReverseSmaller, fw, rv) \<Rightarrow>
            reverse_smaller rp sequence position
              (size_dec (size_dec (size_dec (size_dec revIndex)))) outputIndex fw rv
        | Some (Tie, fw, rv) \<Rightarrow>
            prepSeq_loop rp sequence position (index + 4)
              (size_dec (size_dec (size_dec (size_dec revIndex)))) (outputIndex + 1) fw rv
      else palindromic rp sequence position index outputIndex fw rv)"
  by pat_completeness auto
termination
  by (relation "measure (\<lambda>(rp, sequence, position, index, revIndex, outputIndex, fw, rv).
                  m_halfSizeOfKmerInBytes rp - outputIndex)")
     auto

definition prepSeq :: "ReadsProcessor \<Rightarrow> string \<Rightarrow> nat \<Rightarrow> (ptr \<times> ReadsProcessor) option" where
  "prepSeq rp sequence position = do {
     let index = position;
     let revIndex = size_dec (position + m_kmerSize rp);
     let outputIndex = 0;
     fw \<leftarrow> memset (m_fw rp) 0 (m_kmerSizeInBytes rp);
     rv \<leftarrow> memset (m_rv rp) 0 (m_kmerSizeInBytes rp);
     (p, fw, rv) \<leftarrow> prepSeq_loop rp sequence position index revIndex outputIndex fw rv;
     Some (p, rp\<lparr>m_fw := fw, m_rv := rv\<rparr>)
   }"

text \<open>The bytes behind the pointer that \<open>prepSeq\<close> returns.\<close>

definition deref :: "ReadsProcessor \<Rightarrow> ptr \<Rightarrow> byte list option" where
  "deref rp p = (case p of NULL \<Rightarrow> None | M_fw \<Rightarrow> Some (m_fw rp) | M_rv \<Rightarrow> Some (m_rv rp))"

section \<open>The notions of the specification\<close>

text \<open>
  The alphabet, the 2-bit code of a base (A=0, C=1, G=2, T=3, either case; only used on
  valid bases), the complement (A with T, C with G, the case kept) and the reverse
  complement of a window.
\<close>

definition validBase :: "char \<Rightarrow> bool" where
  "validBase c \<longleftrightarrow> c \<in> set ''ACGTacgt''"

definition baseCode :: "char \<Rightarrow> byte" where
  "baseCode c =
     (if c = CHR ''A'' \<or> c = CHR ''a'' then 0
      else if c = CHR ''C'' \<or> c = CHR ''c'' then 1
      else if c = CHR ''G'' \<or> c = CHR ''g'' then 2
      else 3)"

definition complement :: "char \<Rightarrow> char" where
  "complement c =
     (if c = CHR ''A'' then CHR ''T'' else if c = CHR ''T'' then CHR ''A''
      else if c = CHR ''C'' then CHR ''G'' else if c = CHR ''G'' then CHR ''C''
      else if c = CHR ''a'' then CHR ''t'' else if c = CHR ''t'' then CHR ''a''
      else if c = CHR ''c'' then CHR ''g'' else if c = CHR ''g'' then CHR ''c''
      else c)"

definition reverseComplement :: "string \<Rightarrow> string" where
  "reverseComplement w = rev (map complement w)"

definition upperCase :: "char \<Rightarrow> char" where
  "upperCase c =
     (if c = CHR ''a'' then CHR ''A'' else if c = CHR ''c'' then CHR ''C''
      else if c = CHR ''g'' then CHR ''G'' else if c = CHR ''t'' then CHR ''T''
      else c)"

text \<open>The window of \<open>k\<close> characters of a sequence that starts at a position.\<close>

definition window :: "string \<Rightarrow> nat \<Rightarrow> nat \<Rightarrow> string" where
  "window sequence position k = take k (drop position sequence)"

text \<open>
  PackedKmer: four bases per byte, the first base of a group in bits 6-7, the last in
  bits 0-1; a final partial byte holds its bases from the top, the low bits zero.
\<close>

fun pack :: "string \<Rightarrow> byte list" where
  "pack (a # b # c # d # w) =
     (push_bit 6 (baseCode a) OR push_bit 4 (baseCode b) OR push_bit 2 (baseCode c) OR baseCode d)
       # pack w"
| "pack [a, b, c] =
     [push_bit 6 (baseCode a) OR push_bit 4 (baseCode b) OR push_bit 2 (baseCode c)]"
| "pack [a, b] = [push_bit 6 (baseCode a) OR push_bit 4 (baseCode b)]"
| "pack [a] = [push_bit 6 (baseCode a)]"
| "pack [] = []"

text \<open>Byte arrays of equal length are compared as big-endian unsigned integers.\<close>

fun be_nat :: "byte list \<Rightarrow> nat" where
  "be_nat [] = 0"
| "be_nat (x # xs) = unat x * 256 ^ length xs + be_nat xs"

definition be_min :: "byte list \<Rightarrow> byte list \<Rightarrow> byte list" where
  "be_min a b = (if be_nat a \<le> be_nat b then a else b)"

text \<open>
  The shape shared by the eight lookup tables: the entries of the eight letters, every
  other entry \<open>0xFF\<close>.
\<close>

definition table_of :: "byte \<Rightarrow> byte \<Rightarrow> byte \<Rightarrow> byte \<Rightarrow> byte list" where
  "table_of a c g t =
     replicate 65 0xFF @ [a, 0xFF, c, 0xFF, 0xFF, 0xFF, g] @ replicate 12 0xFF @ [t] @
     replicate 12 0xFF @ [a, 0xFF, c, 0xFF, 0xFF, 0xFF, g] @ replicate 12 0xFF @ [t] @
     replicate 139 0xFF"

declare getBases_loop.simps [simp del]
declare fw_rest.simps [simp del]
declare rv_rest.simps [simp del]
declare rv_last_loop.simps [simp del]
declare pal_rest.simps [simp del]
declare pal_last_loop.simps [simp del]
declare prepSeq_loop.simps [simp del]

text \<open>The code of the base at an index of a window, and zero past its end.\<close>

definition codeAt :: "string \<Rightarrow> nat \<Rightarrow> byte" where
  "codeAt w i = (if i < length w then baseCode (w ! i) else 0)"

text \<open>
  A scratch buffer in which the first \<open>j\<close> bytes of a packing have been written and the
  rest is still zero from the \<open>memset\<close>.
\<close>

definition filled :: "nat \<Rightarrow> byte list \<Rightarrow> byte list" where
  "filled j bs = take j bs @ replicate (length bs - j) 0"

text \<open>
  An instance as the constructor builds it for window size \<open>k\<close>, at any later time:
  the geometry is fixed, the two scratch buffers keep their size and hold any bytes
  (those of an earlier call).
\<close>

definition configured :: "nat \<Rightarrow> ReadsProcessor \<Rightarrow> bool" where
  "configured k rp \<longleftrightarrow>
     (\<exists>rp0 fw rv. ReadsProcessor_new k = Inr rp0 \<and>
        length fw = length (m_fw rp0) \<and> length rv = length (m_rv rp0) \<and>
        rp = rp0\<lparr>m_fw := fw, m_rv := rv\<rparr>)"

section \<open>The constructor\<close>

lemma ReadsProcessor_new_Inr:
  "ReadsProcessor_new k = Inr rp \<longleftrightarrow>
     3 < k \<and>
     rp = \<lparr>m_kmerSize = k,
           m_kmerSizeInBytes = (if k mod 4 = 0 then k div 4 else k div 4 + 1),
           m_halfSizeOfKmerInBytes = (if k mod 8 = 0 then k div 8 else k div 8 + 1),
           m_hangingBases = k mod 4,
           m_hangingBasesExist = (if k mod 4 = 0 then 0 else 1),
           m_fw = replicate (if k mod 4 = 0 then k div 4 else k div 4 + 1) 0,
           m_rv = replicate (if k mod 4 = 0 then k div 4 else k div 4 + 1) 0\<rparr>"
proof -
  have m: "k mod 8 = 0 \<Longrightarrow> k mod 4 = 0"
    by arith
  show ?thesis
    by (auto simp: ReadsProcessor_new_def ReadsProcessor_init_def ReadsProcessor_adjust_def
          Let_def m)
qed

lemma ceil4: "(if k mod 4 = 0 then k div 4 else k div 4 + 1) = (k + 3) div (4::nat)"
  by arith

lemma ceil8: "(if k mod 8 = 0 then k div 8 else k div 8 + 1) = (k + 7) div (8::nat)"
  by arith

lemma ReadsProcessor_new_fields:
  assumes "ReadsProcessor_new k = Inr rp"
  shows "3 < k" and "m_kmerSize rp = k"
    and "m_kmerSizeInBytes rp = (k + 3) div 4"
    and "m_halfSizeOfKmerInBytes rp = (k + 7) div 8"
    and "m_hangingBases rp = k mod 4"
    and "m_hangingBasesExist rp = (if k mod 4 = 0 then 0 else 1)"
    and "length (m_fw rp) = (k + 3) div 4"
    and "length (m_rv rp) = (k + 3) div 4"
  using assms unfolding ReadsProcessor_new_Inr
  by (simp_all add: ceil4 ceil8 del: One_nat_def)

lemma configured_new: "ReadsProcessor_new k = Inr rp \<Longrightarrow> configured k rp"
  unfolding configured_def
  by (intro exI [of _ rp] exI [of _ "m_fw rp"] exI [of _ "m_rv rp"]) simp

lemma configured_fields:
  assumes "configured k rp"
  shows "3 < k" and "m_kmerSize rp = k"
    and "m_kmerSizeInBytes rp = (k + 3) div 4"
    and "m_halfSizeOfKmerInBytes rp = (k + 7) div 8"
    and "m_hangingBases rp = k mod 4"
    and "m_hangingBasesExist rp = (if k mod 4 = 0 then 0 else 1)"
    and "length (m_fw rp) = (k + 3) div 4"
    and "length (m_rv rp) = (k + 3) div 4"
proof -
  from assms obtain rp0 fw rv where rp0: "ReadsProcessor_new k = Inr rp0"
    and l: "length fw = length (m_fw rp0)" "length rv = length (m_rv rp0)"
    and rp: "rp = rp0\<lparr>m_fw := fw, m_rv := rv\<rparr>"
    unfolding configured_def by blast
  note f = ReadsProcessor_new_fields [OF rp0]
  show "3 < k" by (rule f)
  show "m_kmerSize rp = k" "m_kmerSizeInBytes rp = (k + 3) div 4"
    "m_halfSizeOfKmerInBytes rp = (k + 7) div 8" "m_hangingBases rp = k mod 4"
    "m_hangingBasesExist rp = (if k mod 4 = 0 then 0 else 1)"
    "length (m_fw rp) = (k + 3) div 4" "length (m_rv rp) = (k + 3) div 4"
    using f l by (simp_all add: rp)
qed

section \<open>Arithmetic of the geometry\<close>

lemma mod4_cases:
  fixes k :: nat
  assumes "k mod 4 \<noteq> 0"
  obtains "k = 4 * (k div 4) + 1" "k mod 4 = 1"
    | "k = 4 * (k div 4) + 2" "k mod 4 = 2"
    | "k = 4 * (k div 4) + 3" "k mod 4 = 3"
proof -
  define q m where "q = k div 4" and "m = k mod 4"
  have k: "k = 4 * q + m" by (simp add: q_def m_def)
  have "m < 4" by (simp add: m_def)
  with assms have "m = 1 \<or> m = 2 \<or> m = 3" unfolding m_def [symmetric] by linarith
  with k have "k = 4 * q + 1 \<and> m = 1 \<or> k = 4 * q + 2 \<and> m = 2 \<or> k = 4 * q + 3 \<and> m = 3"
    by blast
  then show ?thesis using that unfolding q_def m_def by blast
qed

lemma length_pack_div:
  fixes k :: nat
  shows "k mod 4 = 0 \<Longrightarrow> (k + 3) div 4 = k div 4"
    and "k mod 4 \<noteq> 0 \<Longrightarrow> (k + 3) div 4 = Suc (k div 4)"
proof -
  show "k mod 4 \<noteq> 0 \<Longrightarrow> (k + 3) div 4 = Suc (k div 4)"
    by (erule mod4_cases) (simp_all add: div_eq_0_iff)
  assume "k mod 4 = 0"
  then have "k = 4 * (k div 4)" by (simp add: mod_eq_0_iff_dvd)
  then obtain q where "k = 4 * q" ..
  then show "(k + 3) div 4 = k div 4" by simp
qed

lemma div4_bounds:
  fixes j k :: nat
  shows "j < k div 4 \<Longrightarrow> 4 * j + 4 \<le> k"
    and "Suc j < k div 4 \<Longrightarrow> 4 * j + 8 \<le> k"
    and "j < k div 4 \<Longrightarrow> k mod 4 \<noteq> 0 \<Longrightarrow> 4 * j + 5 \<le> k"
proof -
  define q m where "q = k div 4" and "m = k mod 4"
  have k: "k = 4 * q + m" by (simp add: q_def m_def)
  have "j < q \<Longrightarrow> 4 * j + 4 \<le> k" using k by linarith
  then show "j < k div 4 \<Longrightarrow> 4 * j + 4 \<le> k" unfolding q_def by blast
  have "Suc j < q \<Longrightarrow> 4 * j + 8 \<le> k" using k by linarith
  then show "Suc j < k div 4 \<Longrightarrow> 4 * j + 8 \<le> k" unfolding q_def by blast
  have "j < q \<Longrightarrow> m \<noteq> 0 \<Longrightarrow> 4 * j + 5 \<le> k" using k by linarith
  then show "j < k div 4 \<Longrightarrow> k mod 4 \<noteq> 0 \<Longrightarrow> 4 * j + 5 \<le> k"
    unfolding q_def m_def by blast
qed

lemma half_le: "3 < (k::nat) \<Longrightarrow> (k + 7) div 8 \<le> k div 4"
  by arith

lemma half_ge: "(k::nat) \<le> 8 * ((k + 7) div 8)"
  by arith

section \<open>The lookup tables\<close>

lemma table_of_nth:
  "n < 256 \<Longrightarrow> table_of a c g t ! n =
     (if n = 65 \<or> n = 97 then a else if n = 67 \<or> n = 99 then c
      else if n = 71 \<or> n = 103 then g else if n = 84 \<or> n = 116 then t else 0xFF)"
  unfolding table_of_def
  apply (simp add: nth_append nth_Cons')
  apply (intro conjI impI)
  apply simp_all
  done

lemma of_char_eq_numeral:
  "(of_char ch :: nat) = 65 \<longleftrightarrow> ch = CHR ''A''"
  "(of_char ch :: nat) = 67 \<longleftrightarrow> ch = CHR ''C''"
  "(of_char ch :: nat) = 71 \<longleftrightarrow> ch = CHR ''G''"
  "(of_char ch :: nat) = 84 \<longleftrightarrow> ch = CHR ''T''"
  "(of_char ch :: nat) = 97 \<longleftrightarrow> ch = CHR ''a''"
  "(of_char ch :: nat) = 99 \<longleftrightarrow> ch = CHR ''c''"
  "(of_char ch :: nat) = 103 \<longleftrightarrow> ch = CHR ''g''"
  "(of_char ch :: nat) = 116 \<longleftrightarrow> ch = CHR ''t''"
  using of_char_eq_iff [where 'a = nat, of ch "CHR ''A''"]
        of_char_eq_iff [where 'a = nat, of ch "CHR ''C''"]
        of_char_eq_iff [where 'a = nat, of ch "CHR ''G''"]
        of_char_eq_iff [where 'a = nat, of ch "CHR ''T''"]
        of_char_eq_iff [where 'a = nat, of ch "CHR ''a''"]
        of_char_eq_iff [where 'a = nat, of ch "CHR ''c''"]
        of_char_eq_iff [where 'a = nat, of ch "CHR ''g''"]
        of_char_eq_iff [where 'a = nat, of ch "CHR ''t''"]
  by simp_all

lemma table_of_char:
  "table_of a c g t ! of_char ch =
     (if ch = CHR ''A'' \<or> ch = CHR ''a'' then a else if ch = CHR ''C'' \<or> ch = CHR ''c'' then c
      else if ch = CHR ''G'' \<or> ch = CHR ''g'' then g
      else if ch = CHR ''T'' \<or> ch = CHR ''t'' then t else 0xFF)"
  by (simp only: table_of_nth [OF nat_of_char_less_256] of_char_eq_numeral)

lemma fw0_table: "fw0 = table_of 0x00 0x40 0x80 0xC0"
  by (simp add: fw0_def table_of_def eval_nat_numeral)

lemma fw1_table: "fw1 = table_of 0x00 0x10 0x20 0x30"
  by (simp add: fw1_def table_of_def eval_nat_numeral)

lemma fw2_table: "fw2 = table_of 0x00 0x04 0x08 0x0C"
  by (simp add: fw2_def table_of_def eval_nat_numeral)

lemma fw3_table: "fw3 = table_of 0x00 0x01 0x02 0x03"
  by (simp add: fw3_def table_of_def eval_nat_numeral)

lemma rv0_table: "rv0 = table_of 0xC0 0x80 0x40 0x00"
  by (simp add: rv0_def table_of_def eval_nat_numeral)

lemma rv1_table: "rv1 = table_of 0x30 0x20 0x10 0x00"
  by (simp add: rv1_def table_of_def eval_nat_numeral)

lemma rv2_table: "rv2 = table_of 0x0C 0x08 0x04 0x00"
  by (simp add: rv2_def table_of_def eval_nat_numeral)

lemma rv3_table: "rv3 = table_of 0x03 0x02 0x01 0x00"
  by (simp add: rv3_def table_of_def eval_nat_numeral)

lemmas table_lookup =
  fw0_table fw1_table fw2_table fw3_table rv0_table rv1_table rv2_table rv3_table table_of_char

lemma validBase_iff:
  "validBase c \<longleftrightarrow>
     c = CHR ''A'' \<or> c = CHR ''C'' \<or> c = CHR ''G'' \<or> c = CHR ''T'' \<or>
     c = CHR ''a'' \<or> c = CHR ''c'' \<or> c = CHR ''g'' \<or> c = CHR ''t''"
  by (simp add: validBase_def)

text \<open>
  What the tables hold: the code of a valid base (its complement's code in the \<open>rv\<close>
  tables) at the table's sub-position, and \<open>0xFF\<close> for every other character.
\<close>

lemma fw_lookup:
  "fw0 ! of_char c = (if validBase c then push_bit 6 (baseCode c) else 0xFF)"
  "fw1 ! of_char c = (if validBase c then push_bit 4 (baseCode c) else 0xFF)"
  "fw2 ! of_char c = (if validBase c then push_bit 2 (baseCode c) else 0xFF)"
  "fw3 ! of_char c = (if validBase c then baseCode c else 0xFF)"
  by (auto simp: table_lookup validBase_iff baseCode_def)

lemma rv_lookup:
  "rv0 ! of_char c = (if validBase c then push_bit 6 (baseCode (complement c)) else 0xFF)"
  "rv1 ! of_char c = (if validBase c then push_bit 4 (baseCode (complement c)) else 0xFF)"
  "rv2 ! of_char c = (if validBase c then push_bit 2 (baseCode (complement c)) else 0xFF)"
  "rv3 ! of_char c = (if validBase c then baseCode (complement c) else 0xFF)"
  by (auto simp: table_lookup validBase_iff baseCode_def complement_def)

lemma baseCode_cases: "baseCode c = 0 \<or> baseCode c = 1 \<or> baseCode c = 2 \<or> baseCode c = 3"
  by (simp add: baseCode_def)

lemma validBase_complement [simp]: "validBase (complement c) = validBase c"
  by (auto simp: validBase_iff complement_def)

lemma complement_complement [simp]: "complement (complement c) = c"
  by (auto simp: complement_def)

lemma or_FF [simp]: "x OR 0xFF = (0xFF :: byte)" "0xFF OR x = (0xFF :: byte)"
proof -
  have e: "(0xFF :: byte) = - 1" by simp
  show "x OR 0xFF = (0xFF :: byte)" "0xFF OR x = (0xFF :: byte)"
    unfolding e by (simp_all only: bit.disj_one_right bit.disj_one_left)
qed

text \<open>Three codes in the upper six bits never make \<open>0xFF\<close>: bits 0-1 stay clear.\<close>

lemma three_codes:
  fixes x y z :: byte
  assumes "x = 0 \<or> x = 1 \<or> x = 2 \<or> x = 3" "y = 0 \<or> y = 1 \<or> y = 2 \<or> y = 3"
    "z = 0 \<or> z = 1 \<or> z = 2 \<or> z = 3"
  shows "push_bit 6 x OR push_bit 4 y OR push_bit 2 z \<noteq> 0xFF"
    and "push_bit 6 x OR push_bit 4 y OR push_bit 2 z \<le> 0xFC"
    and "(push_bit 6 x OR push_bit 4 y OR push_bit 2 z) AND 3 = 0"
  using assms by auto

text \<open>
  C10. The invalid-character test of \<open>prepSeq\<close> is sound for a full group of four
  characters: the byte \<open>fw0[c0] | fw1[c1] | fw2[c2]\<close> is \<open>0xFF\<close> exactly when one of the
  three characters is outside \<open>ACGTacgt\<close>; for three valid characters it is at most
  \<open>0xFC\<close> and its bits 0-1 are clear; the same holds for the \<open>rv\<close> tables; and the test
  \<open>byte == 0xFF || fw3[c3] == 0xFF\<close> (or its \<open>rv\<close> twin) succeeds exactly on the groups
  with an invalid character.
\<close>

theorem sentinel_check_sound:
  "((fw0 ! of_char c0 OR fw1 ! of_char c1 OR fw2 ! of_char c2 = 0xFF) \<longleftrightarrow>
      \<not> (validBase c0 \<and> validBase c1 \<and> validBase c2)) \<and>
   ((rv0 ! of_char c0 OR rv1 ! of_char c1 OR rv2 ! of_char c2 = 0xFF) \<longleftrightarrow>
      \<not> (validBase c0 \<and> validBase c1 \<and> validBase c2)) \<and>
   (validBase c0 \<and> validBase c1 \<and> validBase c2 \<longrightarrow>
      fw0 ! of_char c0 OR fw1 ! of_char c1 OR fw2 ! of_char c2 \<le> 0xFC \<and>
      (fw0 ! of_char c0 OR fw1 ! of_char c1 OR fw2 ! of_char c2) AND 3 = 0 \<and>
      rv0 ! of_char c0 OR rv1 ! of_char c1 OR rv2 ! of_char c2 \<le> 0xFC \<and>
      (rv0 ! of_char c0 OR rv1 ! of_char c1 OR rv2 ! of_char c2) AND 3 = 0) \<and>
   ((fw0 ! of_char c0 OR fw1 ! of_char c1 OR fw2 ! of_char c2 = 0xFF \<or> fw3 ! of_char c3 = 0xFF) \<longleftrightarrow>
      \<not> (validBase c0 \<and> validBase c1 \<and> validBase c2 \<and> validBase c3)) \<and>
   ((rv0 ! of_char c0 OR rv1 ! of_char c1 OR rv2 ! of_char c2 = 0xFF \<or> rv3 ! of_char c3 = 0xFF) \<longleftrightarrow>
      \<not> (validBase c0 \<and> validBase c1 \<and> validBase c2 \<and> validBase c3))"
proof -
  have fw3: "fw3 ! of_char c3 = 0xFF \<longleftrightarrow> \<not> validBase c3"
    using baseCode_cases [of c3] by (auto simp: fw_lookup)
  have rv3: "rv3 ! of_char c3 = 0xFF \<longleftrightarrow> \<not> validBase c3"
    using baseCode_cases [of "complement c3"] by (auto simp: rv_lookup)
  show ?thesis
  proof (cases "validBase c0 \<and> validBase c1 \<and> validBase c2")
    case True
    note f = three_codes [OF baseCode_cases [of c0] baseCode_cases [of c1] baseCode_cases [of c2]]
    note r = three_codes [OF baseCode_cases [of "complement c0"]
        baseCode_cases [of "complement c1"] baseCode_cases [of "complement c2"]]
    from True f r show ?thesis
      by (simp add: fw_lookup(1-3) rv_lookup(1-3) fw3 rv3)
  next
    case False
    then have "fw0 ! of_char c0 OR fw1 ! of_char c1 OR fw2 ! of_char c2 = 0xFF"
      and "rv0 ! of_char c0 OR rv1 ! of_char c1 OR rv2 ! of_char c2 = 0xFF"
      by (auto simp: fw_lookup(1-3) rv_lookup(1-3))
    with False show ?thesis by auto
  qed
qed

theorem sentinel_check_sound_witness:
  "validBase CHR ''A'' \<and> validBase CHR ''c'' \<and> validBase CHR ''G'' \<and> \<not> validBase CHR ''N'' \<and>
   fw0 ! of_char CHR ''A'' OR fw1 ! of_char CHR ''c'' OR fw2 ! of_char CHR ''G'' \<noteq> 0xFF \<and>
   fw0 ! of_char CHR ''A'' OR fw1 ! of_char CHR ''c'' OR fw2 ! of_char CHR ''G'' \<le> 0xFC \<and>
   rv0 ! of_char CHR ''A'' OR rv1 ! of_char CHR ''c'' OR rv2 ! of_char CHR ''G'' \<le> 0xFC \<and>
   fw3 ! of_char CHR ''N'' = 0xFF \<and> rv3 ! of_char CHR ''N'' = 0xFF"
  using sentinel_check_sound [of "CHR ''A''" "CHR ''c''" "CHR ''G''" "CHR ''N''"]
  by (auto simp: validBase_iff)

section \<open>Geometry and construction\<close>

text \<open>
  C5. For every window length \<open>k > 3\<close> the constructor succeeds with
  \<open>m_kmerSizeInBytes = ceil(k/4)\<close> and \<open>m_halfSizeOfKmerInBytes = ceil(k/8)\<close>, with
  \<open>1 \<le> m_halfSizeOfKmerInBytes \<le> m_kmerSizeInBytes\<close>, and both scratch buffers have
  \<open>m_kmerSizeInBytes\<close> bytes. (The comparison loop of \<open>prepSeq\<close> runs while
  \<open>outputIndex < m_halfSizeOfKmerInBytes\<close>.)
\<close>

theorem geometry:
  assumes "3 < k"
  shows "\<exists>rp. ReadsProcessor_new k = Inr rp \<and>
           int (m_kmerSizeInBytes rp) = \<lceil>real k / 4\<rceil> \<and>
           int (m_halfSizeOfKmerInBytes rp) = \<lceil>real k / 8\<rceil> \<and>
           1 \<le> m_halfSizeOfKmerInBytes rp \<and>
           m_halfSizeOfKmerInBytes rp \<le> m_kmerSizeInBytes rp \<and>
           length (m_fw rp) = m_kmerSizeInBytes rp \<and>
           length (m_rv rp) = m_kmerSizeInBytes rp"
proof -
  from assms obtain rp where rp: "ReadsProcessor_new k = Inr rp"
    by (simp add: ReadsProcessor_new_Inr)
  note f = ReadsProcessor_new_fields [OF rp]
  have c4: "\<lceil>real k / 4\<rceil> = int ((k + 3) div 4)"
    by (simp add: ceiling_eq_iff) linarith
  have c8: "\<lceil>real k / 8\<rceil> = int ((k + 7) div 8)"
    by (simp add: ceiling_eq_iff) linarith
  have "1 \<le> (k + 7) div 8" "(k + 7) div 8 \<le> (k + 3) div 4"
    using assms by arith+
  with rp f(3,4,7,8) c4 c8 show ?thesis
    by simp
qed

theorem geometry_witness:
  "(3::nat) < 17 \<and>
   (\<exists>rp. ReadsProcessor_new 17 = Inr rp \<and> m_kmerSizeInBytes rp = 5 \<and>
      m_halfSizeOfKmerInBytes rp = 3 \<and> length (m_fw rp) = 5 \<and> length (m_rv rp) = 5)"
proof -
  have h: "(3::nat) < 17" by simp
  from geometry [OF h] obtain rp where rp: "ReadsProcessor_new 17 = Inr rp"
    and l: "length (m_fw rp) = m_kmerSizeInBytes rp" "length (m_rv rp) = m_kmerSizeInBytes rp"
    by blast
  from rp have "m_kmerSizeInBytes rp = 5" "m_halfSizeOfKmerInBytes rp = 3"
    by (simp_all add: ReadsProcessor_new_Inr)
  with rp l show ?thesis by simp
qed

text \<open>
  C6. Constructing with a window size of 0, 1, 2 or 3 fails (the assertion
  \<open>m_kmerSize > 3\<close>) and yields no instance; constructing with 4 succeeds.
\<close>

theorem construction_rejection:
  "ReadsProcessor_new 0 = Inl AssertionFailed \<and>
   ReadsProcessor_new 1 = Inl AssertionFailed \<and>
   ReadsProcessor_new 2 = Inl AssertionFailed \<and>
   ReadsProcessor_new 3 = Inl AssertionFailed \<and>
   ReadsProcessor_new 4 =
     Inr \<lparr>m_kmerSize = 4, m_kmerSizeInBytes = 1, m_halfSizeOfKmerInBytes = 1,
          m_hangingBases = 0, m_hangingBasesExist = 0, m_fw = [0], m_rv = [0]\<rparr>"
  by (simp add: ReadsProcessor_new_def ReadsProcessor_init_def ReadsProcessor_adjust_def)

section \<open>Packing\<close>

lemma length_pack: "length (pack w) = (length w + 3) div 4"
  by (induction w rule: pack.induct) simp_all

lemma codeAt_Cons4: "codeAt (a # b # c # d # w) (4 + i) = codeAt w i"
  by (simp add: codeAt_def)

lemma pack_nth:
  "j < length (pack w) \<Longrightarrow>
   pack w ! j = push_bit 6 (codeAt w (4 * j)) OR push_bit 4 (codeAt w (4 * j + 1)) OR
                push_bit 2 (codeAt w (4 * j + 2)) OR codeAt w (4 * j + 3)"
proof (induction w arbitrary: j rule: pack.induct)
  case (1 a b c d w)
  show ?case
  proof (cases j)
    case 0
    then show ?thesis by (simp add: codeAt_def)
  next
    case (Suc j')
    with 1 have "j' < length (pack w)" by simp
    from 1(1)[OF this] Suc show ?thesis
      using codeAt_Cons4[of a b c d w "4 * j'"] codeAt_Cons4[of a b c d w "4 * j' + 1"]
          codeAt_Cons4[of a b c d w "4 * j' + 2"] codeAt_Cons4[of a b c d w "4 * j' + 3"]
      by (simp add: add.assoc)
  qed
qed (simp_all add: codeAt_def)

section \<open>One byte of a strand\<close>

lemma baseCode_not_FF [simp]: "baseCode c \<noteq> 0xFF"
  using baseCode_cases [of c] by auto

lemma three_baseCodes [simp]:
  "push_bit 6 (baseCode a) OR push_bit 4 (baseCode b) OR push_bit 2 (baseCode c) \<noteq> 0xFF"
  by (rule three_codes(1) [OF baseCode_cases baseCode_cases baseCode_cases])

lemmas access_defs = seq_at_def buf_or_def buf_read_def buf_write_def

lemma fw_byte_valid:
  assumes "index + 3 < length s" "oi < length fw" "fw ! oi = 0"
    and "validBase (s ! index)" "validBase (s ! (index + 1))"
        "validBase (s ! (index + 2))" "validBase (s ! (index + 3))"
  shows "fw_byte s index oi fw =
           Some (True, fw[oi := push_bit 6 (baseCode (s ! index)) OR
                                push_bit 4 (baseCode (s ! (index + 1))) OR
                                push_bit 2 (baseCode (s ! (index + 2))) OR
                                baseCode (s ! (index + 3))])"
  using assms by (simp add: fw_byte_def access_defs fw_lookup or.assoc)

lemma fw_byte_invalid:
  assumes "index + 3 < length s" "oi < length fw" "fw ! oi = 0"
    and "\<not> (validBase (s ! index) \<and> validBase (s ! (index + 1)) \<and>
            validBase (s ! (index + 2)) \<and> validBase (s ! (index + 3)))"
  shows "\<exists>fw'. fw_byte s index oi fw = Some (False, fw') \<and> length fw' = length fw"
  using assms by (auto simp: fw_byte_def access_defs fw_lookup)

lemma rv_byte_valid:
  assumes "revIndex < length s" "3 \<le> revIndex" "oi < length rv" "rv ! oi = 0"
    and "validBase (s ! revIndex)" "validBase (s ! (revIndex - 1))"
        "validBase (s ! (revIndex - 2))" "validBase (s ! (revIndex - 3))"
  shows "rv_byte s revIndex oi rv =
           Some (True, rv[oi := push_bit 6 (baseCode (complement (s ! revIndex))) OR
                                push_bit 4 (baseCode (complement (s ! (revIndex - 1)))) OR
                                push_bit 2 (baseCode (complement (s ! (revIndex - 2)))) OR
                                baseCode (complement (s ! (revIndex - 3)))])"
proof -
  have d: "size_dec revIndex = revIndex - 1" "size_dec (revIndex - 1) = revIndex - 2"
    "size_dec (revIndex - 2) = revIndex - 3"
    using assms(2) by (simp_all add: size_dec_def)
  have l: "revIndex - 1 < length s" "revIndex - 2 < length s" "revIndex - 3 < length s"
    using assms(1) by simp_all
  show ?thesis
    unfolding rv_byte_def d
    using assms l by (simp add: access_defs rv_lookup or.assoc del: One_nat_def)
qed

lemma rv_byte_invalid:
  assumes "revIndex < length s" "3 \<le> revIndex" "oi < length rv" "rv ! oi = 0"
    and "\<not> (validBase (s ! revIndex) \<and> validBase (s ! (revIndex - 1)) \<and>
            validBase (s ! (revIndex - 2)) \<and> validBase (s ! (revIndex - 3)))"
  shows "\<exists>rv'. rv_byte s revIndex oi rv = Some (False, rv') \<and> length rv' = length rv"
proof -
  have d: "size_dec revIndex = revIndex - 1" "size_dec (revIndex - 1) = revIndex - 2"
    "size_dec (revIndex - 2) = revIndex - 3"
    using assms(2) by (simp_all add: size_dec_def)
  have l: "revIndex - 1 < length s" "revIndex - 2 < length s" "revIndex - 3 < length s"
    using assms(1) by simp_all
  show ?thesis
    unfolding rv_byte_def d
    using assms l by (auto simp: access_defs rv_lookup simp del: One_nat_def)
qed

section \<open>Windows and scratch buffers\<close>

lemma length_filled [simp]: "j \<le> length bs \<Longrightarrow> length (filled j bs) = length bs"
  by (simp add: filled_def)

lemma filled_nth_zero: "j \<le> i \<Longrightarrow> i < length bs \<Longrightarrow> filled j bs ! i = 0"
  by (simp add: filled_def nth_append)

lemma filled_nth_done: "i < j \<Longrightarrow> j \<le> length bs \<Longrightarrow> filled j bs ! i = bs ! i"
  by (simp add: filled_def nth_append)

lemma filled_update: "j < length bs \<Longrightarrow> (filled j bs)[j := bs ! j] = filled (Suc j) bs"
proof -
  assume j: "j < length bs"
  then have r: "replicate (length bs - j) (0 :: byte) = 0 # replicate (length bs - Suc j) 0"
    by (simp add: Suc_diff_Suc flip: replicate_Suc)
  show ?thesis
    unfolding filled_def r using j
    by (simp add: list_update_append take_Suc_conv_app_nth)
qed

lemma filled_full [simp]: "filled (length bs) bs = bs"
  by (simp add: filled_def)

lemma filled_0: "filled 0 bs = replicate (length bs) 0"
  by (simp add: filled_def)

lemma length_window: "p + k \<le> length s \<Longrightarrow> length (window s p k) = k"
  by (simp add: window_def)

lemma window_nth: "i < k \<Longrightarrow> p + k \<le> length s \<Longrightarrow> window s p k ! i = s ! (p + i)"
  by (simp add: window_def)

lemma length_reverseComplement [simp]: "length (reverseComplement w) = length w"
  by (simp add: reverseComplement_def)

lemma reverseComplement_nth:
  "i < length w \<Longrightarrow> reverseComplement w ! i = complement (w ! (length w - 1 - i))"
  by (simp add: reverseComplement_def rev_nth)

lemma fw_step:
  assumes "p + k \<le> length s" "j < k div 4"
    and "\<forall>i<4. validBase (s ! (p + 4 * j + i))"
  shows "fw_byte s (p + 4 * j) j (filled j (pack (window s p k))) =
           Some (True, filled (Suc j) (pack (window s p k)))"
proof -
  let ?W = "pack (window s p k)"
  have k: "4 * j + 3 < k" using assms(2) by arith
  have len: "length ?W = (k + 3) div 4" by (simp add: length_pack length_window assms(1))
  have j: "j < length ?W" using assms(2) len by arith
  have v: "validBase (s ! (p + 4 * j))" "validBase (s ! (p + 4 * j + 1))"
    "validBase (s ! (p + 4 * j + 2))" "validBase (s ! (p + 4 * j + 3))"
    using assms(3) [rule_format, of 0] assms(3) [rule_format, of 1]
      assms(3) [rule_format, of 2] assms(3) [rule_format, of 3]
    by simp_all
  have c: "codeAt (window s p k) (4 * j) = baseCode (s ! (p + 4 * j))"
    "codeAt (window s p k) (4 * j + 1) = baseCode (s ! (p + 4 * j + 1))"
    "codeAt (window s p k) (4 * j + 2) = baseCode (s ! (p + 4 * j + 2))"
    "codeAt (window s p k) (4 * j + 3) = baseCode (s ! (p + 4 * j + 3))"
    using k assms(1) by (simp_all add: codeAt_def length_window window_nth add.assoc)
  have byte: "?W ! j = push_bit 6 (baseCode (s ! (p + 4 * j))) OR
                       push_bit 4 (baseCode (s ! (p + 4 * j + 1))) OR
                       push_bit 2 (baseCode (s ! (p + 4 * j + 2))) OR
                       baseCode (s ! (p + 4 * j + 3))"
    by (simp only: pack_nth [OF j] c)
  have 1: "p + 4 * j + 3 < length s" using k assms(1) by simp
  have 2: "j < length (filled j ?W)" using j by simp
  have 3: "filled j ?W ! j = 0" using j by (simp add: filled_nth_zero)
  show ?thesis
    by (simp only: fw_byte_valid [OF 1 2 3 v] byte [symmetric] filled_update [OF j])
qed

lemma fw_step_invalid:
  assumes "p + k \<le> length s" "j < k div 4"
    and "\<not> (\<forall>i<4. validBase (s ! (p + 4 * j + i)))"
  shows "\<exists>fw'. fw_byte s (p + 4 * j) j (filled j (pack (window s p k))) = Some (False, fw')"
proof -
  let ?W = "pack (window s p k)"
  have k: "4 * j + 3 < k" using assms(2) by arith
  have len: "length ?W = (k + 3) div 4" by (simp add: length_pack length_window assms(1))
  have j: "j < length ?W" using assms(2) len by arith
  from assms(3) obtain i where i: "i < 4" "\<not> validBase (s ! (p + 4 * j + i))" by blast
  then have "i = 0 \<or> i = 1 \<or> i = 2 \<or> i = 3" by arith
  with i(2) have v: "\<not> (validBase (s ! (p + 4 * j)) \<and> validBase (s ! (p + 4 * j + 1)) \<and>
            validBase (s ! (p + 4 * j + 2)) \<and> validBase (s ! (p + 4 * j + 3)))"
    by auto
  have 1: "p + 4 * j + 3 < length s" using k assms(1) by simp
  have 2: "j < length (filled j ?W)" using j by simp
  have 3: "filled j ?W ! j = 0" using j by (simp add: filled_nth_zero)
  from fw_byte_invalid [OF 1 2 3 v] show ?thesis by blast
qed

lemma rv_step:
  assumes "p + k \<le> length s" "j < k div 4"
    and "\<forall>i<4. validBase (s ! (p + k - 1 - 4 * j - i))"
  shows "rv_byte s (p + k - 1 - 4 * j) j (filled j (pack (reverseComplement (window s p k)))) =
           Some (True, filled (Suc j) (pack (reverseComplement (window s p k))))"
proof -
  let ?w = "window s p k"
  let ?R = "pack (reverseComplement ?w)"
  let ?r = "p + k - 1 - 4 * j"
  have k: "4 * j + 3 < k" using assms(2) by arith
  have lw: "length ?w = k" by (simp add: length_window assms(1))
  have len: "length ?R = (k + 3) div 4" by (simp add: length_pack lw)
  have j: "j < length ?R" using assms(2) len by arith
  have v: "validBase (s ! ?r)" "validBase (s ! (?r - 1))"
    "validBase (s ! (?r - 2))" "validBase (s ! (?r - 3))"
    using assms(3) [rule_format, of 0] assms(3) [rule_format, of 1]
      assms(3) [rule_format, of 2] assms(3) [rule_format, of 3]
    by simp_all
  have c: "codeAt (reverseComplement ?w) (4 * j + t) = baseCode (complement (s ! (?r - t)))"
    if "t < 4" for t
  proof -
    have a: "4 * j + t < k" using that k by simp
    have b: "k - 1 - (4 * j + t) < k" using a by simp
    have e: "p + (k - 1 - (4 * j + t)) = ?r - t" using a by simp
    show ?thesis
      using a by (simp only: codeAt_def length_reverseComplement lw if_True
          reverseComplement_nth window_nth [OF b assms(1)] e)
  qed
  have byte: "?R ! j = push_bit 6 (baseCode (complement (s ! ?r))) OR
                       push_bit 4 (baseCode (complement (s ! (?r - 1)))) OR
                       push_bit 2 (baseCode (complement (s ! (?r - 2)))) OR
                       baseCode (complement (s ! (?r - 3)))"
    using c [of 0] c [of 1] c [of 2] c [of 3] by (simp only: pack_nth [OF j]) simp
  have 1: "?r < length s" using k assms(1) by simp
  have 2: "3 \<le> ?r" using k by simp
  have 3: "j < length (filled j ?R)" using j by simp
  have 4: "filled j ?R ! j = 0" using j by (simp add: filled_nth_zero)
  show ?thesis
    by (simp only: rv_byte_valid [OF 1 2 3 4 v] byte [symmetric] filled_update [OF j])
qed

lemma rv_step_invalid:
  assumes "p + k \<le> length s" "j < k div 4"
    and "\<not> (\<forall>i<4. validBase (s ! (p + k - 1 - 4 * j - i)))"
  shows "\<exists>rv'. rv_byte s (p + k - 1 - 4 * j) j (filled j (pack (reverseComplement (window s p k))))
           = Some (False, rv')"
proof -
  let ?R = "pack (reverseComplement (window s p k))"
  let ?r = "p + k - 1 - 4 * j"
  have k: "4 * j + 3 < k" using assms(2) by arith
  have len: "length ?R = (k + 3) div 4" by (simp add: length_pack length_window assms(1))
  have j: "j < length ?R" using assms(2) len by arith
  from assms(3) obtain i where i: "i < 4" "\<not> validBase (s ! (?r - i))" by blast
  then have "i = 0 \<or> i = 1 \<or> i = 2 \<or> i = 3" by arith
  with i(2) have v: "\<not> (validBase (s ! ?r) \<and> validBase (s ! (?r - 1)) \<and>
            validBase (s ! (?r - 2)) \<and> validBase (s ! (?r - 3)))"
    by auto
  have 1: "?r < length s" using k assms(1) by simp
  have 2: "3 \<le> ?r" using k by simp
  have 3: "j < length (filled j ?R)" using j by simp
  have 4: "filled j ?R ! j = 0" using j by (simp add: filled_nth_zero)
  from rv_byte_invalid [OF 1 2 3 4 v] show ?thesis by blast
qed

lemma compare_step:
  assumes "p + k \<le> length s" "j < k div 4"
    and "\<forall>i<4. validBase (s ! (p + 4 * j + i))"
    and "\<forall>i<4. validBase (s ! (p + k - 1 - 4 * j - i))"
  shows "compare_byte s (p + 4 * j) (p + k - 1 - 4 * j) j
           (filled j (pack (window s p k))) (filled j (pack (reverseComplement (window s p k)))) =
         Some (if pack (window s p k) ! j < pack (reverseComplement (window s p k)) ! j
                 then ForwardSmaller
               else if pack (reverseComplement (window s p k)) ! j < pack (window s p k) ! j
                 then ReverseSmaller
               else Tie,
               filled (Suc j) (pack (window s p k)),
               filled (Suc j) (pack (reverseComplement (window s p k))))"
proof -
  let ?W = "pack (window s p k)"
  let ?R = "pack (reverseComplement (window s p k))"
  have lw: "length ?W = (k + 3) div 4" by (simp add: length_pack length_window assms(1))
  have lr: "length ?R = (k + 3) div 4" by (simp add: length_pack length_window assms(1))
  have j: "Suc j \<le> length ?W" "Suc j \<le> length ?R" using assms(2) lw lr by arith+
  show ?thesis
    unfolding compare_byte_def fw_step [OF assms(1-3)] rv_step [OF assms(1,2,4)]
    using j by (simp add: buf_read_def filled_nth_done)
qed

lemma compare_step_invalid:
  assumes "p + k \<le> length s" "j < k div 4"
    and "\<not> ((\<forall>i<4. validBase (s ! (p + 4 * j + i))) \<and>
            (\<forall>i<4. validBase (s ! (p + k - 1 - 4 * j - i))))"
  shows "\<exists>fw' rv'. compare_byte s (p + 4 * j) (p + k - 1 - 4 * j) j
           (filled j (pack (window s p k))) (filled j (pack (reverseComplement (window s p k)))) =
         Some (Invalid, fw', rv')"
proof (cases "\<forall>i<4. validBase (s ! (p + 4 * j + i))")
  case True
  with assms(3) have r: "\<not> (\<forall>i<4. validBase (s ! (p + k - 1 - 4 * j - i)))" by blast
  from rv_step_invalid [OF assms(1,2) r] obtain rv' where
    "rv_byte s (p + k - 1 - 4 * j) j (filled j (pack (reverseComplement (window s p k))))
       = Some (False, rv')" by blast
  then show ?thesis
    unfolding compare_byte_def fw_step [OF assms(1,2) True] by simp
next
  case False
  from fw_step_invalid [OF assms(1,2) False] obtain fw' where
    "fw_byte s (p + 4 * j) j (filled j (pack (window s p k))) = Some (False, fw')" by blast
  then show ?thesis
    unfolding compare_byte_def by simp
qed

section \<open>The loops over the remaining full bytes\<close>

lemma full_bytes_cond:
  assumes "configured k rp"
  shows "j + m_hangingBasesExist rp < m_kmerSizeInBytes rp \<longleftrightarrow> j < k div 4"
  unfolding configured_fields(3,6) [OF assms]
  by (cases "k mod 4 = 0") (simp_all add: length_pack_div)

lemma group_valid:
  assumes "\<forall>i. 4 * j \<le> i \<and> i < n \<longrightarrow> validBase (s ! (p + i))" "4 * j + 4 \<le> n"
  shows "\<forall>i<4. validBase (s ! (p + 4 * j + i))"
proof (intro allI impI)
  fix i :: nat assume "i < 4"
  with assms(2) have "4 * j \<le> 4 * j + i \<and> 4 * j + i < n" by simp
  with assms(1) have "validBase (s ! (p + (4 * j + i)))" by blast
  then show "validBase (s ! (p + 4 * j + i))" by (simp only: add.assoc)
qed

lemma group_invalid:
  assumes "\<exists>i. 4 * j \<le> i \<and> i < n \<and> \<not> validBase (s ! (p + i))"
    and "\<forall>i<4. validBase (s ! (p + 4 * j + i))"
  shows "\<exists>i. 4 * Suc j \<le> i \<and> i < n \<and> \<not> validBase (s ! (p + i))"
proof -
  from assms(1) obtain i where i: "4 * j \<le> i" "i < n" "\<not> validBase (s ! (p + i))"
    by blast
  have "\<not> i < 4 * j + 4"
  proof
    assume "i < 4 * j + 4"
    with i(1) have a: "i - 4 * j < 4" and b: "p + 4 * j + (i - 4 * j) = p + i" by simp_all
    from assms(2) [rule_format, OF a] i(3) show False unfolding b by simp
  qed
  then have "4 * Suc j \<le> i" by simp
  with i show ?thesis by blast
qed

lemma fw_rest_valid:
  assumes "configured k rp" "p + k \<le> length s" "j \<le> k div 4"
    and "\<forall>i. 4 * j \<le> i \<and> i < 4 * (k div 4) \<longrightarrow> validBase (s ! (p + i))"
  shows "fw_rest rp s (p + 4 * j) j (filled j (pack (window s p k))) =
           Some (True, p + 4 * (k div 4), k div 4, filled (k div 4) (pack (window s p k)))"
  using assms(3,4)
proof (induction "k div 4 - j" arbitrary: j)
  case 0
  then have "j = k div 4" by simp
  then show ?case
    by (subst fw_rest.simps) (simp add: full_bytes_cond [OF assms(1)])
next
  case (Suc n)
  then have j: "j < k div 4" by simp
  then have j4: "4 * j + 4 \<le> 4 * (k div 4)" by simp
  note v = group_valid [OF Suc.prems(2) j4]
  have n: "n = k div 4 - Suc j" using Suc.hyps(2) by simp
  have le: "Suc j \<le> k div 4" using j by simp
  have v': "\<forall>i. 4 * Suc j \<le> i \<and> i < 4 * (k div 4) \<longrightarrow> validBase (s ! (p + i))"
    using Suc.prems(2) by simp
  have e: "p + 4 * j + 4 = p + 4 * Suc j" "j + 1 = Suc j" by simp_all
  show ?case
    by (subst fw_rest.simps)
       (simp only: full_bytes_cond [OF assms(1)] j if_True fw_step [OF assms(2) j v]
          option.case prod.case not_True_eq_False if_False e Suc.hyps(1) [OF n le v'])
qed

lemma fw_rest_invalid:
  assumes "configured k rp" "p + k \<le> length s"
    and "\<exists>i. 4 * j \<le> i \<and> i < 4 * (k div 4) \<and> \<not> validBase (s ! (p + i))"
  shows "\<exists>i' j' fw'. fw_rest rp s (p + 4 * j) j (filled j (pack (window s p k))) =
           Some (False, i', j', fw')"
  using assms(3)
proof (induction "k div 4 - j" arbitrary: j)
  case 0
  then have "k div 4 \<le> j" by simp
  with 0(2) show ?case by auto
next
  case (Suc n)
  then have j: "j < k div 4" by simp
  have n: "n = k div 4 - Suc j" using Suc.hyps(2) by simp
  have e: "p + 4 * j + 4 = p + 4 * Suc j" "j + 1 = Suc j" by simp_all
  show ?case
  proof (cases "\<forall>i<4. validBase (s ! (p + 4 * j + i))")
    case True
    note ih = Suc.hyps(1) [OF n group_invalid [OF Suc.prems True]]
    show ?thesis
      by (subst fw_rest.simps)
         (simp only: full_bytes_cond [OF assms(1)] j if_True fw_step [OF assms(2) j True]
            option.case prod.case not_True_eq_False if_False e ih)
  next
    case False
    from fw_step_invalid [OF assms(2) j False] obtain fw' where
      "fw_byte s (p + 4 * j) j (filled j (pack (window s p k))) = Some (False, fw')" by blast
    then show ?thesis
      by (subst fw_rest.simps) (simp add: full_bytes_cond [OF assms(1)] j)
  qed
qed

lemma size_dec4: "4 \<le> i \<Longrightarrow> size_dec (size_dec (size_dec (size_dec i))) = i - 4"
  by (simp add: size_dec_def)

lemma rv_group_valid:
  assumes "\<forall>i. 4 * j \<le> i \<and> i < n \<longrightarrow> validBase (s ! (q - i))" "4 * j + 4 \<le> n"
  shows "\<forall>i<4. validBase (s ! (q - 4 * j - i))"
proof (intro allI impI)
  fix i :: nat assume "i < 4"
  with assms(2) have "4 * j \<le> 4 * j + i \<and> 4 * j + i < n" by simp
  with assms(1) have "validBase (s ! (q - (4 * j + i)))" by blast
  then show "validBase (s ! (q - 4 * j - i))" by (simp only: diff_diff_left)
qed

lemma rv_group_invalid:
  assumes "\<exists>i. 4 * j \<le> i \<and> i < n \<and> \<not> validBase (s ! (q - i))"
    and "\<forall>i<4. validBase (s ! (q - 4 * j - i))"
  shows "\<exists>i. 4 * Suc j \<le> i \<and> i < n \<and> \<not> validBase (s ! (q - i))"
proof -
  from assms(1) obtain i where i: "4 * j \<le> i" "i < n" "\<not> validBase (s ! (q - i))"
    by blast
  have "\<not> i < 4 * j + 4"
  proof
    assume "i < 4 * j + 4"
    with i(1) have a: "i - 4 * j < 4" and b: "q - 4 * j - (i - 4 * j) = q - i" by simp_all
    from assms(2) [rule_format, OF a] i(3) show False unfolding b by simp
  qed
  then have "4 * Suc j \<le> i" by simp
  with i show ?thesis by blast
qed

lemma rv_rest_valid:
  assumes "configured k rp" "p + k \<le> length s" "j \<le> k div 4"
    and "j < k div 4 \<or> k mod 4 \<noteq> 0 \<longrightarrow> ri = p + k - 1 - 4 * j"
    and "\<forall>i. 4 * j \<le> i \<and> i < 4 * (k div 4) \<longrightarrow> validBase (s ! (p + k - 1 - i))"
  shows "\<exists>ri'. rv_rest rp s ri j (filled j (pack (reverseComplement (window s p k)))) =
           Some (True, ri', k div 4, filled (k div 4) (pack (reverseComplement (window s p k)))) \<and>
           (k mod 4 \<noteq> 0 \<longrightarrow> ri' = p + k mod 4 - 1)"
  using assms(3,4,5)
proof (induction "k div 4 - j" arbitrary: j ri)
  case 0
  then have j: "j = k div 4" by simp
  have "p + k - 1 - 4 * (k div 4) = p + k mod 4 - 1"
  proof -
    define q m where "q = k div 4" and "m = k mod 4"
    have "k = 4 * q + m" by (simp add: q_def m_def)
    then have "p + k - 1 - 4 * q = p + m - 1" by linarith
    then show ?thesis by (simp only: q_def m_def)
  qed
  with 0(3) j have "k mod 4 \<noteq> 0 \<longrightarrow> ri = p + k mod 4 - 1" by simp
  then show ?case
    by (subst rv_rest.simps) (simp add: full_bytes_cond [OF assms(1)] j)
next
  case (Suc n)
  then have j: "j < k div 4" by simp
  then have j4: "4 * j + 4 \<le> 4 * (k div 4)" by simp
  have ri: "ri = p + k - 1 - 4 * j" using Suc.prems(2) j by simp
  note v = rv_group_valid [OF Suc.prems(3) j4]
  have n: "n = k div 4 - Suc j" using Suc.hyps(2) by simp
  have le: "Suc j \<le> k div 4" using j by simp
  have v': "\<forall>i. 4 * Suc j \<le> i \<and> i < 4 * (k div 4) \<longrightarrow> validBase (s ! (p + k - 1 - i))"
    using Suc.prems(3) by simp
  let ?ri' = "size_dec (size_dec (size_dec (size_dec ri)))"
  have r': "Suc j < k div 4 \<or> k mod 4 \<noteq> 0 \<longrightarrow> ?ri' = p + k - 1 - 4 * Suc j"
  proof
    assume "Suc j < k div 4 \<or> k mod 4 \<noteq> 0"
    with div4_bounds(2) [of j k] div4_bounds(3) [OF j] have "4 * j + 5 \<le> k" by auto
    then have "4 \<le> ri" unfolding ri by simp
    then show "?ri' = p + k - 1 - 4 * Suc j" unfolding ri by (simp add: size_dec4)
  qed
  have e: "j + 1 = Suc j" by simp
  note ih = Suc.hyps(1) [OF n le r' v']
  show ?case
    by (subst rv_rest.simps)
       (simp only: full_bytes_cond [OF assms(1)] j if_True rv_step [OF assms(2) j v, folded ri]
          option.case prod.case not_True_eq_False if_False e ih)
qed

lemma rv_rest_invalid:
  assumes "configured k rp" "p + k \<le> length s"
    and "\<exists>i. 4 * j \<le> i \<and> i < 4 * (k div 4) \<and> \<not> validBase (s ! (p + k - 1 - i))"
  shows "\<exists>i' j' rv'. rv_rest rp s (p + k - 1 - 4 * j) j
           (filled j (pack (reverseComplement (window s p k)))) = Some (False, i', j', rv')"
  using assms(3)
proof (induction "k div 4 - j" arbitrary: j)
  case 0
  then have "k div 4 \<le> j" by simp
  with 0(2) show ?case by auto
next
  case (Suc n)
  then have j: "j < k div 4" by simp
  have n: "n = k div 4 - Suc j" using Suc.hyps(2) by simp
  have e: "j + 1 = Suc j" by simp
  show ?case
  proof (cases "\<forall>i<4. validBase (s ! (p + k - 1 - 4 * j - i))")
    case True
    note inv = rv_group_invalid [OF Suc.prems True]
    then have "Suc j < k div 4" by auto
    with div4_bounds(2) have "4 * j + 8 \<le> k" by simp
    then have "4 \<le> p + k - 1 - 4 * j" by simp
    then have d: "size_dec (size_dec (size_dec (size_dec (p + k - 1 - 4 * j)))) =
        p + k - 1 - 4 * Suc j"
      by (simp add: size_dec4)
    note ih = Suc.hyps(1) [OF n inv]
    show ?thesis
      by (subst rv_rest.simps)
         (simp only: full_bytes_cond [OF assms(1)] j if_True rv_step [OF assms(2) j True]
            option.case prod.case not_True_eq_False if_False e d ih)
  next
    case False
    from rv_step_invalid [OF assms(2) j False] obtain rv' where
      "rv_byte s (p + k - 1 - 4 * j) j (filled j (pack (reverseComplement (window s p k))))
         = Some (False, rv')" by blast
    then show ?thesis
      by (subst rv_rest.simps) (simp add: full_bytes_cond [OF assms(1)] j)
  qed
qed

section \<open>The last, partial byte\<close>

lemma shift_codes:
  fixes x y z :: byte
  assumes "x = 0 \<or> x = 1 \<or> x = 2 \<or> x = 3" "y = 0 \<or> y = 1 \<or> y = 2 \<or> y = 3"
    "z = 0 \<or> z = 1 \<or> z = 2 \<or> z = 3"
  shows "drop_bit 2 (push_bit 6 y) OR push_bit 6 x = push_bit 6 x OR push_bit 4 y"
    and "drop_bit 2 (push_bit 6 z) OR push_bit 6 y = push_bit 6 y OR push_bit 4 z"
    and "drop_bit 2 (push_bit 6 y OR push_bit 4 z) OR push_bit 6 x =
           push_bit 6 x OR push_bit 4 y OR push_bit 2 z"
    and "push_bit 6 x \<noteq> (0xFF :: byte)"
    and "push_bit 6 x OR push_bit 4 y \<noteq> (0xFF :: byte)"
  using assms by auto

lemma fw_last_loop_exit:
  "lastPos < index \<Longrightarrow> fw_last_loop s index oi lastPos fw = Some fw"
  by (subst fw_last_loop.simps) simp

lemma fw_last_loop_step:
  assumes "index \<le> lastPos" "lastPos < length s" "oi < length fw" "validBase (s ! lastPos)"
  shows "fw_last_loop s index oi lastPos fw =
           fw_last_loop s index oi (size_dec lastPos)
             (fw[oi := drop_bit 2 (fw ! oi) OR push_bit 6 (baseCode (s ! lastPos))])"
  using assms by (subst fw_last_loop.simps) (simp add: access_defs fw_lookup)

lemma fw_last_loop_step':
  assumes "index \<le> lastPos" "lastPos < length s" "oi < length F" "validBase (s ! lastPos)"
  shows "fw_last_loop s index oi lastPos (F[oi := x]) =
           fw_last_loop s index oi (size_dec lastPos)
             (F[oi := drop_bit 2 x OR push_bit 6 (baseCode (s ! lastPos))])"
  using fw_last_loop_step [of index lastPos s oi "F[oi := x]"] assms by simp

lemma fw_last_byte:
  assumes "p + k \<le> length s" "3 < k" "k mod 4 \<noteq> 0"
    and "\<forall>i. 4 * (k div 4) \<le> i \<and> i < k \<longrightarrow> validBase (s ! (p + i))"
  shows "fw_last_loop s (p + 4 * (k div 4)) (k div 4) (size_dec (size_dec (p + k)))
           ((filled (k div 4) (pack (window s p k)))
              [k div 4 := push_bit 6 (baseCode (s ! (p + k - 1)))]) =
         Some (pack (window s p k))"
proof -
  define n where "n = k div 4"
  define w where "w = window s p k"
  define W where "W = pack w"
  define F where "F = filled n W"
  have lw: "length w = k" by (simp add: w_def length_window assms(1))
  have n1: "1 \<le> n"
  proof -
    from assms(2) have "4 \<le> k" by simp
    from div_le_mono [OF this, of 4] show ?thesis by (simp add: n_def)
  qed
  have lW: "length W = Suc n"
  proof -
    have "(k + 3) div 4 = Suc (k div 4)"
      using assms(3) by (cases rule: mod4_cases) (simp_all add: div_eq_0_iff)
    then show ?thesis by (simp add: W_def length_pack lw n_def)
  qed
  have lF: "n < length F" by (simp add: F_def lW)
  have Wn: "W ! n = push_bit 6 (codeAt w (4 * n)) OR push_bit 4 (codeAt w (4 * n + 1)) OR
                push_bit 2 (codeAt w (4 * n + 2)) OR codeAt w (4 * n + 3)"
    unfolding W_def by (rule pack_nth) (simp add: lW [unfolded W_def])
  have fin: "F[n := W ! n] = W"
    using filled_update [of n W] filled_full [of W] lW by (simp add: F_def)
  have dec: "size_dec (size_dec (p + k)) = p + k - 2"
    using assms(2) by (simp add: size_dec_def)
  have cd: "codeAt w i = baseCode (s ! (p + i))" if "i < k" for i
    using that window_nth [OF that assms(1)] by (simp add: codeAt_def lw) (simp add: w_def)
  have c0: "codeAt w i = 0" if "k \<le> i" for i
    using that by (simp add: codeAt_def lw)
  have v: "validBase (s ! (p + i))" if "4 * n \<le> i" "i < k" for i
    using assms(4) that unfolding n_def by blast
  have bc: "\<And>c. baseCode c = 0 \<or> baseCode c = 1 \<or> baseCode c = 2 \<or> baseCode c = 3"
    by (rule baseCode_cases)
  have goal: "fw_last_loop s (p + 4 * n) n (p + k - 2) (F[n := push_bit 6 (baseCode (s ! (p + k - 1)))])
                = Some W"
    using assms(3)
  proof (cases rule: mod4_cases)
    case 1
    then have k: "k = 4 * n + 1" by (simp only: n_def)
    have "W ! n = push_bit 6 (baseCode (s ! (p + 4 * n)))"
      unfolding Wn using cd [of "4 * n"] c0 [of "4 * n + 1"] c0 [of "4 * n + 2"] c0 [of "4 * n + 3"]
      by (simp add: k add.assoc)
    with fin have "F[n := push_bit 6 (baseCode (s ! (p + 4 * n)))] = W" by simp
    moreover have "p + k - 2 < p + 4 * n" using n1 k by simp
    ultimately show ?thesis
      by (simp add: fw_last_loop_exit k)
  next
    case 2
    then have k: "k = 4 * n + 2" by (simp only: n_def)
    have "W ! n = push_bit 6 (baseCode (s ! (p + 4 * n))) OR
                  push_bit 4 (baseCode (s ! (p + (4 * n + 1))))"
      unfolding Wn using cd [of "4 * n"] cd [of "4 * n + 1"] c0 [of "4 * n + 2"] c0 [of "4 * n + 3"]
      by (simp add: k add.assoc)
    with fin have f: "F[n := push_bit 6 (baseCode (s ! (p + 4 * n))) OR
                  push_bit 4 (baseCode (s ! (p + (4 * n + 1))))] = W" by simp
    have e: "p + k - 1 = p + (4 * n + 1)" "p + k - 2 = p + 4 * n" using k by simp_all
    have s1: "fw_last_loop s (p + 4 * n) n (p + 4 * n) (F[n := push_bit 6 (baseCode (s ! (p + (4 * n + 1))))])
        = fw_last_loop s (p + 4 * n) n (size_dec (p + 4 * n))
            (F[n := push_bit 6 (baseCode (s ! (p + 4 * n))) OR
                  push_bit 4 (baseCode (s ! (p + (4 * n + 1))))])"
    proof -
      have "p + 4 * n < length s" using assms(1) k by simp
      from fw_last_loop_step' [OF le_refl this lF v [of "4 * n"]] k show ?thesis
        by (simp only: shift_codes(1) [OF bc bc bc])
    qed
    have "size_dec (p + 4 * n) < p + 4 * n" using n1 by (simp add: size_dec_def)
    then show ?thesis
      unfolding e s1 f by (rule fw_last_loop_exit)
  next
    case 3
    then have k: "k = 4 * n + 3" by (simp only: n_def)
    have "W ! n = push_bit 6 (baseCode (s ! (p + 4 * n))) OR
                  push_bit 4 (baseCode (s ! (p + (4 * n + 1)))) OR
                  push_bit 2 (baseCode (s ! (p + (4 * n + 2))))"
      unfolding Wn using cd [of "4 * n"] cd [of "4 * n + 1"] cd [of "4 * n + 2"] c0 [of "4 * n + 3"]
      by (simp add: k add.assoc)
    with fin have f: "F[n := push_bit 6 (baseCode (s ! (p + 4 * n))) OR
                  push_bit 4 (baseCode (s ! (p + (4 * n + 1)))) OR
                  push_bit 2 (baseCode (s ! (p + (4 * n + 2))))] = W" by simp
    have e: "p + k - 1 = p + (4 * n + 2)" "p + k - 2 = p + (4 * n + 1)" using k by simp_all
    have s1: "fw_last_loop s (p + 4 * n) n (p + (4 * n + 1))
                (F[n := push_bit 6 (baseCode (s ! (p + (4 * n + 2))))])
        = fw_last_loop s (p + 4 * n) n (size_dec (p + (4 * n + 1)))
            (F[n := push_bit 6 (baseCode (s ! (p + (4 * n + 1)))) OR
                  push_bit 4 (baseCode (s ! (p + (4 * n + 2))))])"
    proof -
      have a: "p + 4 * n \<le> p + (4 * n + 1)" by simp
      have b: "p + (4 * n + 1) < length s" using assms(1) k by simp
      from fw_last_loop_step' [OF a b lF v [of "4 * n + 1"]] k show ?thesis
        by (simp only: shift_codes(1) [OF bc bc bc])
    qed
    have d1: "size_dec (p + (4 * n + 1)) = p + 4 * n" by (simp add: size_dec_def)
    have s2: "fw_last_loop s (p + 4 * n) n (p + 4 * n)
                (F[n := push_bit 6 (baseCode (s ! (p + (4 * n + 1)))) OR
                  push_bit 4 (baseCode (s ! (p + (4 * n + 2))))])
        = fw_last_loop s (p + 4 * n) n (size_dec (p + 4 * n))
            (F[n := push_bit 6 (baseCode (s ! (p + 4 * n))) OR
                  push_bit 4 (baseCode (s ! (p + (4 * n + 1)))) OR
                  push_bit 2 (baseCode (s ! (p + (4 * n + 2))))])"
    proof -
      have "p + 4 * n < length s" using assms(1) k by simp
      from fw_last_loop_step' [OF le_refl this lF v [of "4 * n"]] k show ?thesis
        by (simp only: shift_codes(3) [OF bc bc bc])
    qed
    have "size_dec (p + 4 * n) < p + 4 * n" using n1 by (simp add: size_dec_def)
    then show ?thesis
      unfolding e s1 d1 s2 f by (rule fw_last_loop_exit)
  qed
  show ?thesis
    using goal unfolding dec F_def W_def w_def n_def .
qed

lemma rv_last_loop_exit:
  "revIndex < position \<Longrightarrow> rv_last_loop s revIndex oi position rv = Some rv"
  by (subst rv_last_loop.simps) simp

lemma rv_last_loop_step:
  assumes "position \<le> revIndex" "position < length s" "oi < length F" "validBase (s ! position)"
  shows "rv_last_loop s revIndex oi position (F[oi := x]) =
           rv_last_loop s revIndex oi (position + 1)
             (F[oi := drop_bit 2 x OR push_bit 6 (baseCode (complement (s ! position)))])"
  using assms by (subst rv_last_loop.simps) (simp add: access_defs rv_lookup)

lemma rv_last_byte:
  assumes "p + k \<le> length s" "3 < k" "k mod 4 \<noteq> 0"
    and "\<forall>i<k mod 4. validBase (s ! (p + i))"
  shows "rv_last_loop s (p + k mod 4 - 1) (k div 4) (p + 1)
           ((filled (k div 4) (pack (reverseComplement (window s p k))))
              [k div 4 := push_bit 6 (baseCode (complement (s ! p)))]) =
         Some (pack (reverseComplement (window s p k)))"
proof -
  define n where "n = k div 4"
  define w where "w = window s p k"
  define r where "r = reverseComplement w"
  define R where "R = pack r"
  define F where "F = filled n R"
  have lw: "length w = k" by (simp add: w_def length_window assms(1))
  have lr: "length r = k" by (simp add: r_def lw)
  have lR: "length R = Suc n"
  proof -
    have "(k + 3) div 4 = Suc (k div 4)"
      using assms(3) by (cases rule: mod4_cases) (simp_all add: div_eq_0_iff)
    then show ?thesis by (simp add: R_def length_pack lr n_def)
  qed
  have lF: "n < length F" by (simp add: F_def lR)
  have Rn: "R ! n = push_bit 6 (codeAt r (4 * n)) OR push_bit 4 (codeAt r (4 * n + 1)) OR
                push_bit 2 (codeAt r (4 * n + 2)) OR codeAt r (4 * n + 3)"
    unfolding R_def by (rule pack_nth) (simp add: lR [unfolded R_def])
  have fin: "F[n := R ! n] = R"
    using filled_update [of n R] filled_full [of R] lR by (simp add: F_def)
  have cd: "codeAt r i = baseCode (complement (s ! (p + (k - 1 - i))))" if "i < k" for i
  proof -
    have a: "k - 1 - i < k" using that by simp
    have "codeAt r i = baseCode (r ! i)" using that by (simp add: codeAt_def lr)
    also have "r ! i = complement (w ! (k - 1 - i))"
      using that by (simp add: r_def reverseComplement_nth lw)
    also have "w ! (k - 1 - i) = s ! (p + (k - 1 - i))"
      unfolding w_def by (rule window_nth [OF a assms(1)])
    finally show ?thesis .
  qed
  have c0: "codeAt r i = 0" if "k \<le> i" for i
    using that by (simp add: codeAt_def lr)
  have bc: "\<And>c. baseCode c = 0 \<or> baseCode c = 1 \<or> baseCode c = 2 \<or> baseCode c = 3"
    by (rule baseCode_cases)
  have goal: "rv_last_loop s (p + k mod 4 - 1) n (p + 1)
                (F[n := push_bit 6 (baseCode (complement (s ! p)))]) = Some R"
    using assms(3)
  proof (cases rule: mod4_cases)
    case 1
    then have k: "k = 4 * n + 1" and m: "k mod 4 = 1" by (simp_all only: n_def)
    have "R ! n = push_bit 6 (baseCode (complement (s ! p)))"
      unfolding Rn using cd [of "4 * n"] c0 [of "4 * n + 1"] c0 [of "4 * n + 2"] c0 [of "4 * n + 3"]
      by (simp add: k)
    with fin have "F[n := push_bit 6 (baseCode (complement (s ! p)))] = R" by simp
    then show ?thesis
      by (simp add: rv_last_loop_exit m)
  next
    case 2
    then have k: "k = 4 * n + 2" and m: "k mod 4 = 2" by (simp_all only: n_def)
    have v: "validBase (s ! (p + 1))" using assms(4) [rule_format, of 1] m by simp
    have "R ! n = push_bit 6 (baseCode (complement (s ! (p + 1)))) OR
                  push_bit 4 (baseCode (complement (s ! p)))"
      unfolding Rn using cd [of "4 * n"] cd [of "4 * n + 1"] c0 [of "4 * n + 2"] c0 [of "4 * n + 3"]
      by (simp add: k)
    with fin have f: "F[n := push_bit 6 (baseCode (complement (s ! (p + 1)))) OR
                  push_bit 4 (baseCode (complement (s ! p)))] = R" by simp
    have e: "p + k mod 4 - 1 = p + 1" using m by simp
    have b: "p + 1 < length s" using assms(1) k by simp
    have s1: "rv_last_loop s (p + 1) n (p + 1) (F[n := push_bit 6 (baseCode (complement (s ! p)))])
        = rv_last_loop s (p + 1) n (p + 1 + 1)
            (F[n := push_bit 6 (baseCode (complement (s ! (p + 1)))) OR
                  push_bit 4 (baseCode (complement (s ! p)))])"
      by (simp only: rv_last_loop_step [OF le_refl b lF v] shift_codes(1) [OF bc bc bc])
    show ?thesis
      unfolding e s1 f by (rule rv_last_loop_exit) simp
  next
    case 3
    then have k: "k = 4 * n + 3" and m: "k mod 4 = 3" by (simp_all only: n_def)
    have v: "validBase (s ! (p + 1))" "validBase (s ! (p + 1 + 1))"
      using assms(4) [rule_format, of 1] assms(4) [rule_format, of 2] m by simp_all
    have "R ! n = push_bit 6 (baseCode (complement (s ! (p + 1 + 1)))) OR
                  push_bit 4 (baseCode (complement (s ! (p + 1)))) OR
                  push_bit 2 (baseCode (complement (s ! p)))"
      unfolding Rn using cd [of "4 * n"] cd [of "4 * n + 1"] cd [of "4 * n + 2"] c0 [of "4 * n + 3"]
      by (simp add: k)
    with fin have f: "F[n := push_bit 6 (baseCode (complement (s ! (p + 1 + 1)))) OR
                  push_bit 4 (baseCode (complement (s ! (p + 1)))) OR
                  push_bit 2 (baseCode (complement (s ! p)))] = R" by simp
    have e: "p + k mod 4 - 1 = p + 1 + 1" using m by simp
    have a: "p + 1 \<le> p + 1 + 1" by simp
    have b: "p + 1 < length s" "p + 1 + 1 < length s" using assms(1) k by simp_all
    have s1: "rv_last_loop s (p + 1 + 1) n (p + 1) (F[n := push_bit 6 (baseCode (complement (s ! p)))])
        = rv_last_loop s (p + 1 + 1) n (p + 1 + 1)
            (F[n := push_bit 6 (baseCode (complement (s ! (p + 1)))) OR
                  push_bit 4 (baseCode (complement (s ! p)))])"
      by (simp only: rv_last_loop_step [OF a b(1) lF v(1)] shift_codes(1) [OF bc bc bc])
    have s2: "rv_last_loop s (p + 1 + 1) n (p + 1 + 1)
            (F[n := push_bit 6 (baseCode (complement (s ! (p + 1)))) OR
                  push_bit 4 (baseCode (complement (s ! p)))])
        = rv_last_loop s (p + 1 + 1) n (p + 1 + 1 + 1)
            (F[n := push_bit 6 (baseCode (complement (s ! (p + 1 + 1)))) OR
                  push_bit 4 (baseCode (complement (s ! (p + 1)))) OR
                  push_bit 2 (baseCode (complement (s ! p)))])"
      by (simp only: rv_last_loop_step [OF le_refl b(2) lF v(2)] shift_codes(3) [OF bc bc bc])
    show ?thesis
      unfolding e s1 s2 f by (rule rv_last_loop_exit) simp
  qed
  show ?thesis
    using goal unfolding F_def R_def r_def w_def n_def .
qed

section \<open>Finishing the smaller strand\<close>

lemma codeAt_cases: "codeAt w i = 0 \<or> codeAt w i = 1 \<or> codeAt w i = 2 \<or> codeAt w i = 3"
  using baseCode_cases [of "w ! i"] by (simp add: codeAt_def)

lemma pack_last_not_FF:
  assumes "length w mod 4 \<noteq> 0"
  shows "pack w ! (length w div 4) \<noteq> 0xFF"
proof -
  have "(length w + 3) div 4 = Suc (length w div 4)"
    using assms by (cases rule: mod4_cases) (simp_all add: div_eq_0_iff)
  then have j: "length w div 4 < length (pack w)" by (simp add: length_pack)
  have "length w \<le> 4 * (length w div 4) + 3"
    using assms by (cases rule: mod4_cases) simp_all
  then have z: "codeAt w (4 * (length w div 4) + 3) = 0" by (simp add: codeAt_def)
  show ?thesis
    unfolding pack_nth [OF j] z
    using three_codes(1) [OF codeAt_cases codeAt_cases codeAt_cases] by simp
qed

lemma forward_smaller_valid:
  assumes "configured k rp" "p + k \<le> length s" "j < k div 4"
    and "\<forall>i. 4 * Suc j \<le> i \<and> i < k \<longrightarrow> validBase (s ! (p + i))"
  shows "forward_smaller rp s p (p + 4 * j + 4) j (filled (Suc j) (pack (window s p k))) rv =
           Some (M_fw, pack (window s p k), rv)"
proof -
  define n where "n = k div 4"
  define W where "W = pack (window s p k)"
  note f = configured_fields [OF assms(1)]
  have lW: "length W = (k + 3) div 4" by (simp add: W_def length_pack length_window assms(2))
  have le: "Suc j \<le> k div 4" using assms(3) by simp
  have v: "\<forall>i. 4 * Suc j \<le> i \<and> i < 4 * (k div 4) \<longrightarrow> validBase (s ! (p + i))"
  proof (intro allI impI)
    fix i assume i: "4 * Suc j \<le> i \<and> i < 4 * (k div 4)"
    have "4 * (k div 4) \<le> k" by simp
    with i have "i < k" by linarith
    with i assms(4) show "validBase (s ! (p + i))" by blast
  qed
  have e: "p + 4 * j + 4 = p + 4 * Suc j" "j + 1 = Suc j" by simp_all
  note r = fw_rest_valid [OF assms(1,2) le v, folded W_def n_def]
  show ?thesis
  proof (cases "k mod 4 = 0")
    case True
    then have "length W = n" using lW by (simp add: length_pack_div n_def)
    then have "filled n W = W" using filled_full [of W] by simp
    then show ?thesis
      unfolding forward_smaller_def e W_def [symmetric] r
      by (simp add: f True)
  next
    case False
    have k1: "size_dec (p + k) = p + k - 1" using f(1) by (simp add: size_dec_def)
    have lt: "p + k - 1 < length s" using assms(2) f(1) by simp
    have nF: "n < length (filled n W)" using lW False by (simp add: length_pack_div n_def)
    have "4 * (k div 4) \<le> k - 1"
      using False by (cases rule: mod4_cases) simp_all
    moreover have "p + (k - 1) = p + k - 1" using f(1) by simp
    ultimately have vl: "validBase (s ! (p + k - 1))"
      using assms(4) [rule_format, of "k - 1"] assms(3) f(1) by simp
    have vt: "\<forall>i. 4 * (k div 4) \<le> i \<and> i < k \<longrightarrow> validBase (s ! (p + i))"
      using assms(3,4) by auto
    have l: "fw_last_loop s (p + 4 * n) n (size_dec (p + k - Suc 0))
               ((filled n W)[n := push_bit 6 (baseCode (s ! (p + k - Suc 0)))]) = Some W"
      using fw_last_byte [OF assms(2) f(1) False vt, folded W_def n_def] k1 by simp
    have nW: "n < length W" using lW False by (simp add: length_pack_div n_def)
    have ne: "W ! n \<noteq> 0xFF"
      using pack_last_not_FF [of "window s p k"] False
      by (simp add: length_window assms(2) W_def n_def)
    show ?thesis
      unfolding forward_smaller_def e W_def [symmetric] r
      using False vl lt nF nW ne
      by (simp add: f k1 seq_at_def buf_write_def buf_read_def fw_lookup l Let_def)
  qed
qed

lemma forward_smaller_invalid:
  assumes "configured k rp" "p + k \<le> length s"
    and "\<exists>i. 4 * Suc j \<le> i \<and> i < 4 * (k div 4) \<and> \<not> validBase (s ! (p + i))"
  shows "\<exists>fw'. forward_smaller rp s p (p + 4 * j + 4) j (filled (Suc j) (pack (window s p k))) rv =
           Some (NULL, fw', rv)"
proof -
  have e: "p + 4 * j + 4 = p + 4 * Suc j" "j + 1 = Suc j" by simp_all
  from fw_rest_invalid [OF assms] obtain i' j' fw' where
    "fw_rest rp s (p + 4 * Suc j) (Suc j) (filled (Suc j) (pack (window s p k))) =
       Some (False, i', j', fw')" by blast
  then show ?thesis
    unfolding forward_smaller_def e by simp
qed

lemma reverse_smaller_valid:
  assumes "configured k rp" "p + k \<le> length s" "j < k div 4"
    and "Suc j < k div 4 \<or> k mod 4 \<noteq> 0 \<longrightarrow> ri = p + k - 1 - 4 * Suc j"
    and "\<forall>i. 4 * Suc j \<le> i \<and> i < k \<longrightarrow> validBase (s ! (p + k - 1 - i))"
  shows "reverse_smaller rp s p ri j fw (filled (Suc j) (pack (reverseComplement (window s p k)))) =
           Some (M_rv, fw, pack (reverseComplement (window s p k)))"
proof -
  define n where "n = k div 4"
  define R where "R = pack (reverseComplement (window s p k))"
  note f = configured_fields [OF assms(1)]
  have lR: "length R = (k + 3) div 4" by (simp add: R_def length_pack length_window assms(2))
  have le: "Suc j \<le> k div 4" using assms(3) by simp
  have v: "\<forall>i. 4 * Suc j \<le> i \<and> i < 4 * (k div 4) \<longrightarrow> validBase (s ! (p + k - 1 - i))"
  proof (intro allI impI)
    fix i assume i: "4 * Suc j \<le> i \<and> i < 4 * (k div 4)"
    have "4 * (k div 4) \<le> k" by simp
    with i have "i < k" by linarith
    with i assms(5) show "validBase (s ! (p + k - 1 - i))" by blast
  qed
  have e: "j + 1 = Suc j" by simp
  from rv_rest_valid [OF assms(1,2) le assms(4) v, folded R_def n_def] obtain ri' where
    r: "rv_rest rp s ri (Suc j) (filled (Suc j) R) = Some (True, ri', n, filled n R)"
    and ri': "k mod 4 \<noteq> 0 \<longrightarrow> ri' = p + k mod 4 - 1" by blast
  show ?thesis
  proof (cases "k mod 4 = 0")
    case True
    then have "length R = n" using lR by (simp add: length_pack_div n_def)
    then have "filled n R = R" using filled_full [of R] by simp
    then show ?thesis
      unfolding reverse_smaller_def e R_def [symmetric] r
      by (simp add: f True)
  next
    case False
    have lt: "p < length s" using assms(2) f(1) by simp
    have nF: "n < length (filled n R)" using lR False by (simp add: length_pack_div n_def)
    have vt: "\<forall>i<k mod 4. validBase (s ! (p + i))"
    proof (intro allI impI)
      fix i assume i: "i < k mod 4"
      have km: "k = 4 * (k div 4) + k mod 4" by simp
      have "k mod 4 \<le> k" by simp
      with i have ik: "i < k" by linarith
      have a: "4 * (k div 4) \<le> k - 1 - i"
        using i km by linarith
      have "4 * Suc j \<le> 4 * (k div 4)" using assms(3) by simp
      with a have b: "4 * Suc j \<le> k - 1 - i" by linarith
      have c: "k - 1 - i < k" using f(1) by simp
      have d: "p + k - 1 - (k - 1 - i) = p + i" using ik by simp
      from assms(5) [rule_format, of "k - 1 - i"] b c show "validBase (s ! (p + i))"
        unfolding d by simp
    qed
    have v0: "validBase (s ! p)"
      using vt [rule_format, of 0] False by simp
    have l: "rv_last_loop s ri' n (Suc p)
               ((filled n R)[n := push_bit 6 (baseCode (complement (s ! p)))]) = Some R"
      using rv_last_byte [OF assms(2) f(1) False vt, folded R_def n_def] ri' False by simp
    have nR: "n < length R" using lR False by (simp add: length_pack_div n_def)
    have ne: "R ! n \<noteq> 0xFF"
      using pack_last_not_FF [of "reverseComplement (window s p k)"] False
      by (simp add: length_window assms(2) R_def n_def)
    show ?thesis
      unfolding reverse_smaller_def e R_def [symmetric] r
      using False v0 lt nF nR ne
      by (simp add: f seq_at_def buf_write_def buf_read_def rv_lookup l)
  qed
qed

lemma reverse_smaller_invalid:
  assumes "configured k rp" "p + k \<le> length s"
    and "\<exists>i. 4 * Suc j \<le> i \<and> i < 4 * (k div 4) \<and> \<not> validBase (s ! (p + k - 1 - i))"
  shows "\<exists>rv'. reverse_smaller rp s p (p + k - 1 - 4 * Suc j) j fw
           (filled (Suc j) (pack (reverseComplement (window s p k)))) = Some (NULL, fw, rv')"
proof -
  have e: "j + 1 = Suc j" by simp
  from rv_rest_invalid [OF assms] obtain i' j' rv' where
    "rv_rest rp s (p + k - 1 - 4 * Suc j) (Suc j)
       (filled (Suc j) (pack (reverseComplement (window s p k)))) = Some (False, i', j', rv')"
    by blast
  then show ?thesis
    unfolding reverse_smaller_def e by simp
qed

section \<open>The comparison loop\<close>

lemma next_revIndex:
  fixes j k p :: nat
  assumes "j < k div 4" "Suc j < k div 4 \<or> k mod 4 \<noteq> 0"
  shows "size_dec (size_dec (size_dec (size_dec (p + k - 1 - 4 * j)))) = p + k - 1 - 4 * Suc j"
proof -
  from assms div4_bounds(2) [of j k] div4_bounds(3) [of j k] have "4 * j + 5 \<le> k" by auto
  then have "4 \<le> p + k - 1 - 4 * j" by simp
  then show ?thesis by (simp add: size_dec4)
qed

text \<open>
  The comparison loop on a window of valid bases whose packings differ in one of the
  compared bytes: the strand that is smaller at the first differing byte is completed
  and returned.
\<close>

lemma prepSeq_loop_decided:
  assumes "configured k rp" "p + k \<le> length s"
    and "\<forall>i<k. validBase (s ! (p + i))"
    and "\<forall>i<j. pack (window s p k) ! i = pack (reverseComplement (window s p k)) ! i"
    and "\<exists>d. j \<le> d \<and> d < (k + 7) div 8 \<and>
           pack (window s p k) ! d \<noteq> pack (reverseComplement (window s p k)) ! d"
  shows "\<exists>d fw' rv'. d < (k + 7) div 8 \<and>
           (\<forall>i<d. pack (window s p k) ! i = pack (reverseComplement (window s p k)) ! i) \<and>
           pack (window s p k) ! d \<noteq> pack (reverseComplement (window s p k)) ! d \<and>
           prepSeq_loop rp s p (p + 4 * j) (p + k - 1 - 4 * j) j
             (filled j (pack (window s p k))) (filled j (pack (reverseComplement (window s p k)))) =
           (if pack (window s p k) ! d < pack (reverseComplement (window s p k)) ! d
            then Some (M_fw, pack (window s p k), rv')
            else Some (M_rv, fw', pack (reverseComplement (window s p k))))"
  using assms(4,5)
proof (induction "(k + 7) div 8 - j" arbitrary: j)
  case 0
  then show ?case by auto
next
  case (Suc m)
  define W where "W = pack (window s p k)"
  define R where "R = pack (reverseComplement (window s p k))"
  note f = configured_fields [OF assms(1)]
  from Suc.hyps(2) have jH: "j < (k + 7) div 8" by simp
  with half_le [OF f(1)] have j: "j < k div 4" by simp
  note b = div4_bounds(1) [OF j]
  have vf: "\<forall>i<4. validBase (s ! (p + 4 * j + i))"
  proof (intro allI impI)
    fix i :: nat assume "i < 4"
    with b have "4 * j + i < k" by simp
    from assms(3) [rule_format, OF this] show "validBase (s ! (p + 4 * j + i))"
      by (simp only: add.assoc)
  qed
  have vr: "\<forall>i<4. validBase (s ! (p + k - 1 - 4 * j - i))"
  proof (intro allI impI)
    fix i :: nat assume "i < 4"
    with b have "k - 1 - 4 * j - i < k" "p + (k - 1 - 4 * j - i) = p + k - 1 - 4 * j - i"
      by simp_all
    with assms(3) [rule_format, of "k - 1 - 4 * j - i"] show "validBase (s ! (p + k - 1 - 4 * j - i))"
      by simp
  qed
  note c = compare_step [OF assms(2) j vf vr, folded W_def R_def]
  have e: "j + 1 = Suc j" "p + 4 * j + 4 = p + 4 * Suc j" by simp_all
  consider (fw) "W ! j < R ! j" | (rv) "R ! j < W ! j" | (tie) "W ! j = R ! j"
    by (metis linorder_less_linear)
  then show ?case
  proof cases
    case fw
    have v: "\<forall>i. 4 * Suc j \<le> i \<and> i < k \<longrightarrow> validBase (s ! (p + i))"
      using assms(3) by blast
    have "prepSeq_loop rp s p (p + 4 * j) (p + k - 1 - 4 * j) j (filled j W) (filled j R) =
            Some (M_fw, W, filled (Suc j) R)"
      by (subst prepSeq_loop.simps)
         (simp only: f(4) jH if_True c fw option.case prod.case verdict.case
            forward_smaller_valid [OF assms(1,2) j v, folded W_def])
    with fw jH Suc.prems(1) show ?thesis
      unfolding W_def [symmetric] R_def [symmetric]
      by (intro exI [of _ j] exI [of _ "filled (Suc j) R"]) auto
  next
    case rv
    then have nfw: "\<not> W ! j < R ! j" by simp
    have v: "\<forall>i. 4 * Suc j \<le> i \<and> i < k \<longrightarrow> validBase (s ! (p + k - 1 - i))"
    proof (intro allI impI)
      fix i assume "4 * Suc j \<le> i \<and> i < k"
      then have "k - 1 - i < k" "p + (k - 1 - i) = p + k - 1 - i" by simp_all
      with assms(3) [rule_format, of "k - 1 - i"] show "validBase (s ! (p + k - 1 - i))"
        by simp
    qed
    have ri: "Suc j < k div 4 \<or> k mod 4 \<noteq> 0 \<longrightarrow>
        size_dec (size_dec (size_dec (size_dec (p + k - 1 - 4 * j)))) = p + k - 1 - 4 * Suc j"
      using next_revIndex [OF j] by blast
    have "prepSeq_loop rp s p (p + 4 * j) (p + k - 1 - 4 * j) j (filled j W) (filled j R) =
            Some (M_rv, filled (Suc j) W, R)"
      by (subst prepSeq_loop.simps)
         (simp only: f(4) jH if_True c rv nfw if_False option.case prod.case verdict.case
            reverse_smaller_valid [OF assms(1,2) j ri v, folded R_def])
    with rv nfw jH Suc.prems(1) show ?thesis
      unfolding W_def [symmetric] R_def [symmetric]
      by (intro exI [of _ j] exI [of _ "filled (Suc j) W"]) auto
  next
    case tie
    from Suc.prems(2) obtain d where d: "j \<le> d" "d < (k + 7) div 8" "W ! d \<noteq> R ! d"
      unfolding W_def R_def by blast
    with tie have "Suc j \<le> d" by (cases "d = j") auto
    with d have ex: "\<exists>d. Suc j \<le> d \<and> d < (k + 7) div 8 \<and> W ! d \<noteq> R ! d" by blast
    have ties: "\<forall>i<Suc j. W ! i = R ! i"
      using Suc.prems(1) tie unfolding W_def R_def by (auto simp: less_Suc_eq)
    have m: "m = (k + 7) div 8 - Suc j" using Suc.hyps(2) by simp
    from \<open>Suc j \<le> d\<close> d(2) have "Suc j < (k + 7) div 8" by simp
    with half_le [OF f(1)] have "Suc j < k div 4" by simp
    with next_revIndex [OF j] have ri:
      "size_dec (size_dec (size_dec (size_dec (p + k - 1 - 4 * j)))) = p + k - 1 - 4 * Suc j"
      by blast
    have step: "prepSeq_loop rp s p (p + 4 * j) (p + k - 1 - 4 * j) j (filled j W) (filled j R) =
            prepSeq_loop rp s p (p + 4 * Suc j) (p + k - 1 - 4 * Suc j) (Suc j)
              (filled (Suc j) W) (filled (Suc j) R)"
      by (subst prepSeq_loop.simps)
         (simp only: f(4) jH if_True c tie less_irrefl if_False option.case prod.case
            verdict.case ri e)
    from Suc.hyps(1) [OF m ties [unfolded W_def R_def] ex [unfolded W_def R_def]]
    show ?thesis
      unfolding W_def [symmetric] R_def [symmetric] step .
  qed
qed

lemma checked_covers:
  fixes k h p :: nat
  assumes "\<forall>i<4 * h. validBase (s ! (p + i)) \<and> validBase (s ! (p + k - 1 - i))"
    and "k \<le> 8 * h" "i < k"
  shows "validBase (s ! (p + i))"
proof (cases "i < 4 * h")
  case True
  with assms(1) show ?thesis by blast
next
  case False
  with assms(2,3) have a: "k - 1 - i < 4 * h" and b: "p + k - 1 - (k - 1 - i) = p + i"
    by simp_all
  from assms(1) [rule_format, OF a] show ?thesis unfolding b by simp
qed

lemma unchecked_middle:
  fixes k j p :: nat
  assumes "\<forall>i<4 * Suc j. validBase (s ! (p + i)) \<and> validBase (s ! (p + k - 1 - i))"
    and "i < k" "\<not> validBase (s ! (p + i))"
  shows "4 * Suc j \<le> i" and "4 * Suc j \<le> k - 1 - i" and "i < 4 * (k div 4)"
    and "k - 1 - i < 4 * (k div 4)" and "p + k - 1 - (k - 1 - i) = p + i"
proof -
  show 1: "4 * Suc j \<le> i" using assms(1,3) by (meson not_le)
  show e: "p + k - 1 - (k - 1 - i) = p + i" using assms(2) by simp
  show 2: "4 * Suc j \<le> k - 1 - i"
  proof (rule ccontr)
    assume "\<not> 4 * Suc j \<le> k - 1 - i"
    then have "k - 1 - i < 4 * Suc j" by simp
    from assms(1) [rule_format, OF this] assms(3) show False unfolding e by simp
  qed
  define q m where "q = k div 4" and "m = k mod 4"
  have k: "k = 4 * q + m" by (simp add: q_def m_def)
  have m: "m < 4" by (simp add: m_def)
  from 2 assms(2) k m have "i < 4 * q" by simp
  then show "i < 4 * (k div 4)" by (simp only: q_def)
  from 1 assms(2) k m have "k - 1 - i < 4 * q" by simp
  then show "k - 1 - i < 4 * (k div 4)" by (simp only: q_def)
qed

text \<open>
  The comparison loop on a window with an invalid character: every path returns
  \<open>NULL\<close>, because the rounds already made have checked both ends of the window.
\<close>

lemma prepSeq_loop_invalid:
  assumes "configured k rp" "p + k \<le> length s"
    and "\<exists>i<k. \<not> validBase (s ! (p + i))"
    and "\<forall>i<4 * j. validBase (s ! (p + i)) \<and> validBase (s ! (p + k - 1 - i))"
  shows "\<exists>fw' rv'. prepSeq_loop rp s p (p + 4 * j) (p + k - 1 - 4 * j) j
             (filled j (pack (window s p k))) (filled j (pack (reverseComplement (window s p k)))) =
           Some (NULL, fw', rv')"
  using assms(4)
proof (induction "(k + 7) div 8 - j" arbitrary: j)
  case 0
  then have "(k + 7) div 8 \<le> j" by simp
  then have "4 * ((k + 7) div 8) \<le> 4 * j" by simp
  with 0(2) have "\<forall>i<4 * ((k + 7) div 8). validBase (s ! (p + i)) \<and> validBase (s ! (p + k - 1 - i))"
    by (meson less_le_trans)
  from checked_covers [OF this half_ge] assms(3) show ?case by blast
next
  case (Suc m)
  define W where "W = pack (window s p k)"
  define R where "R = pack (reverseComplement (window s p k))"
  note f = configured_fields [OF assms(1)]
  from Suc.hyps(2) have jH: "j < (k + 7) div 8" by simp
  with half_le [OF f(1)] have j: "j < k div 4" by simp
  have e: "j + 1 = Suc j" "p + 4 * j + 4 = p + 4 * Suc j" by simp_all
  show ?case
  proof (cases "(\<forall>i<4. validBase (s ! (p + 4 * j + i))) \<and>
                (\<forall>i<4. validBase (s ! (p + k - 1 - 4 * j - i)))")
    case False
    from compare_step_invalid [OF assms(2) j False] obtain fw' rv' where
      "compare_byte s (p + 4 * j) (p + k - 1 - 4 * j) j (filled j W) (filled j R) =
         Some (Invalid, fw', rv')" unfolding W_def R_def by blast
    then have "prepSeq_loop rp s p (p + 4 * j) (p + k - 1 - 4 * j) j (filled j W) (filled j R) =
      Some (NULL, fw', rv')"
      by (subst prepSeq_loop.simps)
         (simp only: f(4) jH if_True option.case prod.case verdict.case)
    then show ?thesis unfolding W_def R_def by blast
  next
    case True
    then have vf: "\<forall>i<4. validBase (s ! (p + 4 * j + i))"
      and vr: "\<forall>i<4. validBase (s ! (p + k - 1 - 4 * j - i))" by blast+
    note c = compare_step [OF assms(2) j vf vr, folded W_def R_def]
    have checked: "\<forall>i<4 * Suc j. validBase (s ! (p + i)) \<and> validBase (s ! (p + k - 1 - i))"
    proof (intro allI impI)
      fix i assume i: "i < 4 * Suc j"
      show "validBase (s ! (p + i)) \<and> validBase (s ! (p + k - 1 - i))"
      proof (cases "i < 4 * j")
        case True
        with Suc.prems show ?thesis by blast
      next
        case False
        with i have a: "i - 4 * j < 4" and b: "p + 4 * j + (i - 4 * j) = p + i"
          and c: "p + k - 1 - 4 * j - (i - 4 * j) = p + k - 1 - i" by simp_all
        from vf [rule_format, OF a] vr [rule_format, OF a] show ?thesis
          unfolding b c by simp
      qed
    qed
    from assms(3) obtain i0 where i0: "i0 < k" "\<not> validBase (s ! (p + i0))" by blast
    note u = unchecked_middle [OF checked i0]
    from u(1,2) i0(1) have k9: "Suc j < k div 4 \<or> k mod 4 \<noteq> 0"
    proof -
      define q r where "q = k div 4" and "r = k mod 4"
      have k: "k = 4 * q + r" by (simp add: q_def r_def)
      from u(1,2) i0(1) k have "Suc j < q \<or> r \<noteq> 0" by (cases "r = 0") simp_all
      then show ?thesis by (simp only: q_def r_def)
    qed
    note ri = next_revIndex [OF j k9, of p]
    consider (fw) "W ! j < R ! j" | (rv) "R ! j < W ! j" | (tie) "W ! j = R ! j"
      by (metis linorder_less_linear)
    then show ?thesis
    proof cases
      case fw
      from u(1,3) i0(2) have
        "\<exists>i. 4 * Suc j \<le> i \<and> i < 4 * (k div 4) \<and> \<not> validBase (s ! (p + i))" by blast
      from forward_smaller_invalid [OF assms(1,2) this, folded W_def, of "filled (Suc j) R"]
      obtain fw' where "forward_smaller rp s p (p + 4 * j + 4) j (filled (Suc j) W) (filled (Suc j) R)
          = Some (NULL, fw', filled (Suc j) R)" by blast
      then have "prepSeq_loop rp s p (p + 4 * j) (p + k - 1 - 4 * j) j (filled j W) (filled j R) =
            Some (NULL, fw', filled (Suc j) R)"
        by (subst prepSeq_loop.simps)
           (simp only: f(4) jH if_True c fw option.case prod.case verdict.case)
      then show ?thesis unfolding W_def R_def by blast
    next
      case rv
      then have nfw: "\<not> W ! j < R ! j" by simp
      from u(2,4,5) i0(2) have
        "\<exists>i. 4 * Suc j \<le> i \<and> i < 4 * (k div 4) \<and> \<not> validBase (s ! (p + k - 1 - i))"
        by (intro exI [of _ "k - 1 - i0"]) simp
      from reverse_smaller_invalid [OF assms(1,2) this, folded R_def, of "filled (Suc j) W"]
      obtain rv' where "reverse_smaller rp s p (p + k - 1 - 4 * Suc j) j (filled (Suc j) W)
          (filled (Suc j) R) = Some (NULL, filled (Suc j) W, rv')" by blast
      then have "prepSeq_loop rp s p (p + 4 * j) (p + k - 1 - 4 * j) j (filled j W) (filled j R) =
            Some (NULL, filled (Suc j) W, rv')"
        by (subst prepSeq_loop.simps)
           (simp only: f(4) jH if_True c rv nfw if_False option.case prod.case verdict.case ri)
      then show ?thesis unfolding W_def R_def by blast
    next
      case tie
      have m: "m = (k + 7) div 8 - Suc j" using Suc.hyps(2) by simp
      have step: "prepSeq_loop rp s p (p + 4 * j) (p + k - 1 - 4 * j) j (filled j W) (filled j R) =
            prepSeq_loop rp s p (p + 4 * Suc j) (p + k - 1 - 4 * Suc j) (Suc j)
              (filled (Suc j) W) (filled (Suc j) R)"
        by (subst prepSeq_loop.simps)
           (simp only: f(4) jH if_True c tie less_irrefl if_False option.case prod.case
              verdict.case ri e)
      from Suc.hyps(1) [OF m checked]
      show ?thesis
        unfolding W_def [symmetric] R_def [symmetric] step .
    qed
  qed
qed


end
